theory Spec2Isabelle
  imports Main "HOL-Library.Word" "HOL-Library.Multiset"
begin

section \<open>ProgramDmaBench: data model\<close>

text \<open>
  The embedding follows \<^verbatim>\<open>src/CommandLineUtilities/ProgramDmaBench.cxx\<close>.
  Integers: \<^verbatim>\<open>uint32_t\<close> is \<open>32 word\<close>; the \<^verbatim>\<open>int64_t\<close> member
  \<^verbatim>\<open>mDataGeneratorCounter\<close> is \<open>64 word\<close> (its sentinel is \<open>-1\<close> and it is narrowed to
  \<^verbatim>\<open>uint32_t\<close> at every call of \<^verbatim>\<open>checkErrors\<close>); the 64-bit page and error tallies are
  \<open>int\<close> (they start at 0 and grow by a page, a superpage or an error at a time, far
  from \<open>2^63\<close>); \<^verbatim>\<open>size_t\<close> values are \<open>nat\<close>, with \<open>mod 2^64\<close> written out where the
  program multiplies sizes, and addresses, which stay inside the mapped buffer, as they
  are.
\<close>

type_synonym u32 = "32 word"
type_synonym i64 = "64 word"

text \<open>
  Modelled from the spec: the enumerations \<^verbatim>\<open>CardType::type\<close> and
  \<^verbatim>\<open>GeneratorPattern::type\<close> are declared in headers that are not part of the sources at
  hand. The source names \<^verbatim>\<open>Crorc\<close>, \<^verbatim>\<open>Cru\<close> and the patterns \<^verbatim>\<open>Incremental\<close>,
  \<^verbatim>\<open>Alternating\<close>, \<^verbatim>\<open>Constant\<close>; the option text adds \<^verbatim>\<open>RANDOM\<close>. \<open>UnknownCard\<close>
  stands for every card type that takes the \<^verbatim>\<open>default\<close> branch of the switches.
\<close>

datatype CardType = Crorc | Cru | UnknownCard

datatype GeneratorPattern = Incremental | Alternating | Constant | Random

text \<open>
  Exceptions are values. \<open>Exception\<close> and \<open>ParameterException\<close> carry the
  \<^verbatim>\<open>ErrorInfo::Message\<close> and, where the source attaches it, the
  \<^verbatim>\<open>ErrorInfo::GeneratorPattern\<close>; \<open>runtime_error\<close> is \<^verbatim>\<open>std::runtime_error\<close>.
\<close>

datatype error =
    Exception string "GeneratorPattern option"
  | ParameterException string
  | runtime_error string
  | SIGFPE

text \<open>
  One line of \<^verbatim>\<open>mErrorStream\<close>: the five values that the format
  \<^verbatim>\<open>"event:%d i:%d cnt:%d exp:0x%x val:0x%x\n"\<close> prints, in that order.
\<close>

record ErrorLine =
  event :: int
  index :: nat
  cnt :: u32
  exp :: u32
  val :: u32

text \<open>
  The members of the class that the readout path mutates. \<open>memory\<close> is the mapped
  buffer: the 32-bit word stored at a byte address (pages are read and reset in 32-bit
  words from the page address).
\<close>

record Members =
  mPushCount :: int
  mReadoutCount :: int
  mErrorCount :: int
  mErrorStream :: "ErrorLine list"
  mDataGeneratorCounter :: i64
  mDmaLoopBreak :: bool
  memory :: "nat \<Rightarrow> u32"

text \<open>
  \<^verbatim>\<open>OptionsStruct\<close>: the fields that \<^verbatim>\<open>run\<close> and \<^verbatim>\<open>dmaLoop\<close> read. The pattern is
  taken as already converted by \<^verbatim>\<open>GeneratorPattern::fromString\<close>, which is not in the
  sources.
\<close>

record OptionsStruct =
  maxPages :: int
  fileOutputAscii :: bool
  fileOutputBin :: bool
  resetChannel :: bool
  randomPause :: bool
  noErrorCheck :: bool
  pageReset :: bool
  noResyncCounter :: bool
  bufferSizeString :: string
  superpageSizeMiB :: nat
  generatorPattern :: GeneratorPattern

text \<open>
  What is fixed before \<^verbatim>\<open>dmaLoop\<close> starts: the options, \<^verbatim>\<open>isVerbose()\<close> of the base
  class, and the members that \<^verbatim>\<open>run\<close> sets once.
\<close>

record Config = OptionsStruct +
  isVerbose :: bool
  mCardType :: CardType
  mPageSize :: nat
  mSuperpageSize :: nat
  mBufferSize :: nat
  mBufferBaseAddress :: nat

definition mInfinitePages :: "Config \<Rightarrow> bool" where
  "mInfinitePages c = (maxPages c \<le> 0)"

definition MAX_RECORDED_ERRORS :: int where
  "MAX_RECORDED_ERRORS = 1000"

definition BUFFER_DEFAULT_VALUE :: u32 where
  "BUFFER_DEFAULT_VALUE = 0xCCCCCCCC"

definition PATTERN_STRIDE :: nat where
  "PATTERN_STRIDE = 8"

text \<open>The member initialisers of the class.\<close>

definition initialMembers :: "(nat \<Rightarrow> u32) \<Rightarrow> Members" where
  "initialMembers mem =
     \<lparr> mPushCount = 0, mReadoutCount = 0, mErrorCount = 0, mErrorStream = [],
       mDataGeneratorCounter = - 1, mDmaLoopBreak = False, memory = mem \<rparr>"

section \<open>Pattern verifier\<close>

text \<open>
  A page is seen as \<^verbatim>\<open>const volatile uint32_t*\<close>: \<open>page i\<close> is the word \<^verbatim>\<open>page[i]\<close>.
  \<open>pageSize32\<close> is \<^verbatim>\<open>pageSize / sizeof(int32_t)\<close>. The loop index is a
  \<^verbatim>\<open>uint32_t\<close> in the source and a \<open>nat\<close> here: the two agree as long as the page has
  fewer than \<open>2^32 - 8\<close> words (a DMA page is a few KiB), and the expected value is
  computed from the index as a 32-bit word, as in the source.
\<close>

definition pageSize32 :: "nat \<Rightarrow> nat" where
  "pageSize32 pageSize = pageSize div 4"

text \<open>The body of \<^verbatim>\<open>if (actualValue != expectedValue) { ... }\<close> in \<^verbatim>\<open>checkErrorsCru\<close>.\<close>

definition reportErrorCru ::
  "Config \<Rightarrow> int \<Rightarrow> nat \<Rightarrow> u32 \<Rightarrow> u32 \<Rightarrow> u32 \<Rightarrow> 'a Members_scheme \<Rightarrow> 'a Members_scheme" where
  "reportErrorCru c eventNumber i counter expectedValue actualValue st =
     (let st1 = st\<lparr>mErrorCount := mErrorCount st + 1\<rparr> in
      if isVerbose c \<and> mErrorCount st1 < MAX_RECORDED_ERRORS
      then st1\<lparr>mErrorStream := mErrorStream st1 @
             [\<lparr>event = eventNumber, index = i, cnt = counter,
               exp = expectedValue, val = actualValue\<rparr>]\<rparr>
      else st1)"

function checkCru ::
  "Config \<Rightarrow> (u32 \<Rightarrow> u32) \<Rightarrow> (nat \<Rightarrow> u32) \<Rightarrow> nat \<Rightarrow> int \<Rightarrow> u32 \<Rightarrow> nat \<Rightarrow>
   'a Members_scheme \<Rightarrow> bool \<times> 'a Members_scheme" where
  "checkCru c patternFunction page n eventNumber counter i st =
     (if i < n then
        (let expectedValue = patternFunction (of_nat i);
             actualValue = page i
         in if actualValue \<noteq> expectedValue
            then (True, reportErrorCru c eventNumber i counter expectedValue actualValue st)
            else checkCru c patternFunction page n eventNumber counter (i + PATTERN_STRIDE) st)
      else (False, st))"
  by pat_completeness auto
termination
  by (relation "measure (\<lambda>(c, f, page, n, e, counter, i, st). n - i)")
     (auto simp: PATTERN_STRIDE_def)

declare checkCru.simps [simp del]

definition checkErrorsCru ::
  "Config \<Rightarrow> (nat \<Rightarrow> u32) \<Rightarrow> nat \<Rightarrow> int \<Rightarrow> u32 \<Rightarrow> 'a Members_scheme \<Rightarrow>
   error + (bool \<times> 'a Members_scheme)" where
  "checkErrorsCru c page pageSize eventNumber counter st =
     (case generatorPattern c of
        Incremental \<Rightarrow>
          Inr (checkCru c (\<lambda>i. counter * 256 + i div 8) page (pageSize32 pageSize)
                 eventNumber counter 0 st)
      | Alternating \<Rightarrow>
          Inr (checkCru c (\<lambda>i. 0xa5a5a5a5) page (pageSize32 pageSize)
                 eventNumber counter 0 st)
      | Constant \<Rightarrow>
          Inr (checkCru c (\<lambda>i. 0x12345678) page (pageSize32 pageSize)
                 eventNumber counter 0 st)
      | _ \<Rightarrow> Inl (Exception ''Unsupported pattern for CRU error checking''
                   (Some (generatorPattern c))))"

definition addError ::
  "Config \<Rightarrow> int \<Rightarrow> nat \<Rightarrow> u32 \<Rightarrow> u32 \<Rightarrow> u32 \<Rightarrow> 'a Members_scheme \<Rightarrow> 'a Members_scheme" where
  "addError c eventNumber idx generatorCounter expectedValue actualValue st =
     (let st1 = st\<lparr>mErrorCount := mErrorCount st + 1\<rparr> in
      if isVerbose c \<and> mErrorCount st1 < MAX_RECORDED_ERRORS
      then st1\<lparr>mErrorStream := mErrorStream st1 @
             [\<lparr>event = eventNumber, index = idx, cnt = generatorCounter,
               exp = expectedValue, val = actualValue\<rparr>]\<rparr>
      else st1)"

text \<open>The dense loop of \<^verbatim>\<open>checkErrorsCrorc\<close>, from index \<open>i\<close> on.\<close>

function scanCrorc ::
  "Config \<Rightarrow> (u32 \<Rightarrow> u32) \<Rightarrow> (nat \<Rightarrow> u32) \<Rightarrow> nat \<Rightarrow> int \<Rightarrow> u32 \<Rightarrow> nat \<Rightarrow>
   'a Members_scheme \<Rightarrow> bool \<times> 'a Members_scheme" where
  "scanCrorc c patternFunction page n eventNumber counter i st =
     (if i < n then
        (let expectedValue = patternFunction (of_nat i);
             actualValue = page i
         in if actualValue \<noteq> expectedValue
            then (True, addError c eventNumber i counter expectedValue actualValue st)
            else scanCrorc c patternFunction page n eventNumber counter (i + 1) st)
      else (False, st))"
  by pat_completeness auto
termination
  by (relation "measure (\<lambda>(c, f, page, n, e, counter, i, st). n - i)") auto

declare scanCrorc.simps [simp del]

text \<open>The lambda \<^verbatim>\<open>check\<close> of \<^verbatim>\<open>checkErrorsCrorc\<close>: the header word, then the scan.\<close>

definition checkCrorc ::
  "Config \<Rightarrow> (u32 \<Rightarrow> u32) \<Rightarrow> (nat \<Rightarrow> u32) \<Rightarrow> nat \<Rightarrow> int \<Rightarrow> u32 \<Rightarrow>
   'a Members_scheme \<Rightarrow> bool \<times> 'a Members_scheme" where
  "checkCrorc c patternFunction page n eventNumber counter st =
     (let st1 = (if page 0 \<noteq> counter
                 then addError c eventNumber 0 counter counter (page 0) st
                 else st)
      in scanCrorc c patternFunction page n eventNumber counter 8 st1)"

definition checkErrorsCrorc ::
  "Config \<Rightarrow> (nat \<Rightarrow> u32) \<Rightarrow> nat \<Rightarrow> int \<Rightarrow> u32 \<Rightarrow> 'a Members_scheme \<Rightarrow>
   error + (bool \<times> 'a Members_scheme)" where
  "checkErrorsCrorc c page pageSize eventNumber counter st =
     (case generatorPattern c of
        Incremental \<Rightarrow>
          Inr (checkCrorc c (\<lambda>i. i - 1) page (pageSize32 pageSize) eventNumber counter st)
      | Alternating \<Rightarrow>
          Inr (checkCrorc c (\<lambda>i. 0xa5a5a5a5) page (pageSize32 pageSize) eventNumber counter st)
      | Constant \<Rightarrow>
          Inr (checkCrorc c (\<lambda>i. 0x12345678) page (pageSize32 pageSize) eventNumber counter st)
      | _ \<Rightarrow> Inl (Exception ''Unsupported pattern for C-RORC error checking''
                   (Some (generatorPattern c))))"

definition checkErrors ::
  "Config \<Rightarrow> (nat \<Rightarrow> u32) \<Rightarrow> nat \<Rightarrow> int \<Rightarrow> u32 \<Rightarrow> 'a Members_scheme \<Rightarrow>
   error + (bool \<times> 'a Members_scheme)" where
  "checkErrors c page pageSize eventNumber counter st =
     (case mCardType c of
        Crorc \<Rightarrow> checkErrorsCrorc c page pageSize eventNumber counter st
      | Cru \<Rightarrow> checkErrorsCru c page pageSize eventNumber counter st
      | _ \<Rightarrow> Inl (runtime_error ''Error checking unsupported for this card type''))"

section \<open>Reading out one page\<close>

text \<open>\<^verbatim>\<open>getEventNumber\<close> copies the first four bytes of the page: the word \<^verbatim>\<open>page[0]\<close>.\<close>

definition getEventNumber :: "(nat \<Rightarrow> u32) \<Rightarrow> u32" where
  "getEventNumber page = page 0"

text \<open>The lambda \<^verbatim>\<open>getDataGeneratorCounterFromPage\<close> of \<^verbatim>\<open>readoutPage\<close>.\<close>

definition getDataGeneratorCounterFromPage :: "Config \<Rightarrow> (nat \<Rightarrow> u32) \<Rightarrow> error + u32" where
  "getDataGeneratorCounterFromPage c page =
     (case mCardType c of
        Crorc \<Rightarrow> Inr (getEventNumber page)
      | Cru \<Rightarrow> Inr (getEventNumber page div 256)
      | _ \<Rightarrow> Inl (runtime_error ''Error checking unsupported for this card type''))"

text \<open>The words of the page at a byte address of the buffer.\<close>

definition pageAt :: "(nat \<Rightarrow> u32) \<Rightarrow> nat \<Rightarrow> nat \<Rightarrow> u32" where
  "pageAt mem pageAddress i = mem (pageAddress + 4 * i)"

text \<open>\<^verbatim>\<open>resetPage\<close>: the first \<open>n\<close> words of the page are set to the default value.\<close>

primrec resetWords :: "(nat \<Rightarrow> u32) \<Rightarrow> nat \<Rightarrow> nat \<Rightarrow> nat \<Rightarrow> u32" where
  "resetWords mem pageAddress 0 = mem"
| "resetWords mem pageAddress (Suc n) =
     (resetWords mem pageAddress n)(pageAddress + 4 * n := BUFFER_DEFAULT_VALUE)"

definition resetPage :: "nat \<Rightarrow> nat \<Rightarrow> 'a Members_scheme \<Rightarrow> 'a Members_scheme" where
  "resetPage pageAddress pageSize st =
     st\<lparr>memory := resetWords (memory st) pageAddress (pageSize32 pageSize)\<rparr>"

text \<open>
  The error-checking block of \<^verbatim>\<open>readoutPage\<close>, in its three steps. The first page seeds
  the counter (the sentinel is \<open>-1\<close>); the counter is narrowed to \<^verbatim>\<open>uint32_t\<close> for
  \<^verbatim>\<open>checkErrors\<close>; on a reported error, unless \<^verbatim>\<open>noResyncCounter\<close> is set, the counter is
  read again from the page.
\<close>

definition initializeCounter ::
  "Config \<Rightarrow> (nat \<Rightarrow> u32) \<Rightarrow> 'a Members_scheme \<Rightarrow> error + 'a Members_scheme" where
  "initializeCounter c page st =
     (if mDataGeneratorCounter st = - 1
      then (case getDataGeneratorCounterFromPage c page of
              Inl e \<Rightarrow> Inl e
            | Inr v \<Rightarrow> Inr (st\<lparr>mDataGeneratorCounter := ucast v\<rparr>))
      else Inr st)"

definition resyncCounter ::
  "Config \<Rightarrow> (nat \<Rightarrow> u32) \<Rightarrow> bool \<Rightarrow> 'a Members_scheme \<Rightarrow> error + 'a Members_scheme" where
  "resyncCounter c page hasError st =
     (if hasError \<and> \<not> noResyncCounter c
      then (case getDataGeneratorCounterFromPage c page of
              Inl e \<Rightarrow> Inl e
            | Inr v \<Rightarrow> Inr (st\<lparr>mDataGeneratorCounter := ucast v\<rparr>))
      else Inr st)"

definition errorCheckPage ::
  "Config \<Rightarrow> (nat \<Rightarrow> u32) \<Rightarrow> nat \<Rightarrow> int \<Rightarrow> 'a Members_scheme \<Rightarrow> error + 'a Members_scheme" where
  "errorCheckPage c page pageSize readoutCount st =
     (case initializeCounter c page st of
        Inl e \<Rightarrow> Inl e
      | Inr st1 \<Rightarrow>
          (case checkErrors c page pageSize readoutCount
                  (ucast (mDataGeneratorCounter st1)) st1 of
             Inl e \<Rightarrow> Inl e
           | Inr (hasError, st2) \<Rightarrow> resyncCounter c page hasError st2))"

text \<open>
  \<^verbatim>\<open>readoutPage\<close>. The dump of the page to \<^verbatim>\<open>mReadoutStream\<close> (\<^verbatim>\<open>printToFile\<close>) writes to a
  file only and is left out of the state.
\<close>

definition readoutPage ::
  "Config \<Rightarrow> nat \<Rightarrow> nat \<Rightarrow> int \<Rightarrow> 'a Members_scheme \<Rightarrow> error + 'a Members_scheme" where
  "readoutPage c pageAddress pageSize readoutCount st =
     (case (if \<not> noErrorCheck c
            then errorCheckPage c (pageAt (memory st) pageAddress) pageSize readoutCount st
            else Inr st) of
        Inl e \<Rightarrow> Inl e
      | Inr st1 \<Rightarrow>
          (let st2 = (if pageReset c then resetPage pageAddress pageSize st1 else st1)
           in Inr (st2\<lparr>mDataGeneratorCounter := mDataGeneratorCounter st2 + 1\<rparr>)))"

text \<open>
  \<^verbatim>\<open>outputErrors\<close>: what goes to the console (nothing unless verbose; the text is cut at
  2000 characters there, which the line model does not render) and what is written to
  \<^verbatim>\<open>readout_errors.txt\<close>: the whole of \<^verbatim>\<open>mErrorStream\<close>.
\<close>

definition outputErrors :: "'a Members_scheme \<Rightarrow> ErrorLine list" where
  "outputErrors st = mErrorStream st"

section \<open>Queues and the card\<close>

text \<open>
  \<^verbatim>\<open>folly::ProducerConsumerQueue<size_t>\<close> is a library type: a ring of \<open>qsize\<close> slots of
  which one stays empty, so it holds at most \<open>qsize - 1\<close> records. \<^verbatim>\<open>write\<close> fails on a
  full queue and \<^verbatim>\<open>read\<close> on an empty one; neither blocks.
\<close>

record ProducerConsumerQueue =
  qsize :: nat
  records :: "nat list"

definition newQueue :: "nat \<Rightarrow> ProducerConsumerQueue" where
  "newQueue n = \<lparr> qsize = n, records = [] \<rparr>"

definition queueWrite :: "ProducerConsumerQueue \<Rightarrow> nat \<Rightarrow> ProducerConsumerQueue option" where
  "queueWrite q x =
     (if length (records q) + 1 < qsize q
      then Some (q\<lparr>records := records q @ [x]\<rparr>)
      else None)"

definition queueRead :: "ProducerConsumerQueue \<Rightarrow> (nat \<times> ProducerConsumerQueue) option" where
  "queueRead q =
     (case records q of
        [] \<Rightarrow> None
      | x # xs \<Rightarrow> Some (x, q\<lparr>records := xs\<rparr>))"

text \<open>
  Modelled from the spec: the class \<^verbatim>\<open>Superpage\<close> is not in the sources. Section 3 of the
  specification gives its fields (offset, size, received bytes) and derives
  \<^verbatim>\<open>isFilled\<close> from received bytes \<open>\<ge>\<close> size.
\<close>

record Superpage =
  offset :: nat
  spSize :: nat
  received :: nat

definition isFilled :: "Superpage \<Rightarrow> bool" where
  "isFilled sp = (spSize sp \<le> received sp)"

definition getOffset :: "Superpage \<Rightarrow> nat" where
  "getOffset sp = offset sp"

text \<open>
  \<^verbatim>\<open>ChannelMasterInterface\<close> is an abstract class whose implementations are not in the
  sources; \<^verbatim>\<open>dmaLoop\<close> is written against it. The methods that \<^verbatim>\<open>dmaLoop\<close> calls are
  taken as a record of functions over the state \<open>'c\<close> of a card channel.
\<close>

record 'c ChannelMasterInterface =
  fillSuperpages :: "'c \<Rightarrow> 'c"
  getSuperpageQueueAvailable :: "'c \<Rightarrow> nat"
  pushSuperpage :: "Superpage \<Rightarrow> 'c \<Rightarrow> 'c"
  getSuperpageQueueCount :: "'c \<Rightarrow> nat"
  getSuperpage :: "'c \<Rightarrow> Superpage"
  popSuperpage :: "'c \<Rightarrow> 'c"

section \<open>The DMA loop\<close>

text \<open>
  The state of \<^verbatim>\<open>dmaLoop\<close>: the members, the channel, the two queues, and for each of
  the two loops whether it is still running.
\<close>

record 'c DmaLoop = Members +
  mChannel :: 'c
  freeQueue :: ProducerConsumerQueue
  readoutQueue :: ProducerConsumerQueue
  pushRunning :: bool
  readoutRunning :: bool

text \<open>
  \<^verbatim>\<open>const int\<close> initialised from a quotient of two \<^verbatim>\<open>size_t\<close>: the quotient is narrowed
  to 32 bits and read as signed.
\<close>

definition toInt :: "nat \<Rightarrow> int" where
  "toInt n = sint (word_of_nat n :: 32 word)"

definition indexToOffset :: "Config \<Rightarrow> nat \<Rightarrow> nat" where
  "indexToOffset c i = (i * mSuperpageSize c) mod 2 ^ 64"

definition maxSuperpages :: "Config \<Rightarrow> int" where
  "maxSuperpages c = toInt (mBufferSize c div mSuperpageSize c)"

definition pagesPerSuperpage :: "Config \<Rightarrow> int" where
  "pagesPerSuperpage c = toInt (mSuperpageSize c div mPageSize c)"

fun fillFreeQueue ::
  "Config \<Rightarrow> nat list \<Rightarrow> ProducerConsumerQueue \<Rightarrow> error + ProducerConsumerQueue" where
  "fillFreeQueue c [] q = Inr q"
| "fillFreeQueue c (i # js) q =
     (case queueWrite q (indexToOffset c i) of
        None \<Rightarrow> Inl (Exception ''Something went horribly wrong'' None)
      | Some q' \<Rightarrow> fillFreeQueue c js q')"

text \<open>
  The start of \<^verbatim>\<open>dmaLoop\<close>, up to the launch of the threads. A zero superpage or page
  size makes the integer divisions trap (\<open>SIGFPE\<close>).
\<close>

definition dmaLoopStart :: "Config \<Rightarrow> Members \<Rightarrow> 'c \<Rightarrow> error + 'c DmaLoop" where
  "dmaLoopStart c m ch =
     (if mSuperpageSize c = 0 \<or> mPageSize c = 0 then Inl SIGFPE
      else if maxSuperpages c < 1 then Inl (runtime_error ''Buffer too small'')
      else (case fillFreeQueue c [0 ..< nat (maxSuperpages c)]
                   (newQueue (nat (maxSuperpages c + 1))) of
              Inl e \<Rightarrow> Inl e
            | Inr fq \<Rightarrow>
                Inr \<lparr> mPushCount = mPushCount m, mReadoutCount = mReadoutCount m,
                      mErrorCount = mErrorCount m, mErrorStream = mErrorStream m,
                      mDataGeneratorCounter = mDataGeneratorCounter m,
                      mDmaLoopBreak = mDmaLoopBreak m, memory = memory m,
                      mChannel = ch, freeQueue = fq,
                      readoutQueue = newQueue (nat (maxSuperpages c + 1)),
                      pushRunning = True, readoutRunning = True \<rparr>))"

subsection \<open>The push thread\<close>

text \<open>\<^verbatim>\<open>while (mChannel->getSuperpageQueueAvailable() != 0) { ... }\<close>\<close>

function pushFreeSuperpages ::
  "'c ChannelMasterInterface \<Rightarrow> Config \<Rightarrow> 'c DmaLoop \<Rightarrow> 'c DmaLoop" where
  "pushFreeSuperpages ch c st =
     (if getSuperpageQueueAvailable ch (mChannel st) \<noteq> 0 then
        (case queueRead (freeQueue st) of
           Some (off, q) \<Rightarrow>
             pushFreeSuperpages ch c
               (st\<lparr>freeQueue := q,
                   mChannel := pushSuperpage ch
                     \<lparr>offset = off, spSize = mSuperpageSize c, received = 0\<rparr> (mChannel st)\<rparr>)
         | None \<Rightarrow> st)
      else st)"
  by pat_completeness auto
termination
  by (relation "measure (\<lambda>(ch, c, st). length (records (freeQueue st)))")
     (auto simp: queueRead_def split: list.splits)

declare pushFreeSuperpages.simps [simp del]

text \<open>\<^verbatim>\<open>if (mChannel->getSuperpageQueueCount() > 0) { ... }\<close>\<close>

definition checkFilledSuperpages ::
  "'c ChannelMasterInterface \<Rightarrow> Config \<Rightarrow> 'c DmaLoop \<Rightarrow> 'c DmaLoop" where
  "checkFilledSuperpages ch c st =
     (if 0 < getSuperpageQueueCount ch (mChannel st) then
        (let superpage = getSuperpage ch (mChannel st) in
         if isFilled superpage then
           (case queueWrite (readoutQueue st) (getOffset superpage) of
              Some q \<Rightarrow>
                st\<lparr>readoutQueue := q,
                   mPushCount := mPushCount st + pagesPerSuperpage c,
                   mChannel := popSuperpage ch (mChannel st)\<rparr>
            | None \<Rightarrow> st)
         else st)
      else st)"

text \<open>
  One pass of the push thread's \<^verbatim>\<open>while (!isStopDma())\<close>. The random pause only sleeps
  and is left out.
\<close>

definition pushIteration ::
  "'c ChannelMasterInterface \<Rightarrow> Config \<Rightarrow> 'c DmaLoop \<Rightarrow> 'c DmaLoop" where
  "pushIteration ch c st =
     (if \<not> pushRunning st then st
      else if mDmaLoopBreak st then st\<lparr>pushRunning := False\<rparr>
      else if \<not> mInfinitePages c \<and> maxPages c \<le> mPushCount st then st\<lparr>pushRunning := False\<rparr>
      else checkFilledSuperpages ch c
             (pushFreeSuperpages ch c (st\<lparr>mChannel := fillSuperpages ch (mChannel st)\<rparr>)))"

subsection \<open>The readout thread\<close>

text \<open>
  The readout loop runs on the main thread while the other two loops run on threads of
  their own, so an exception raised in it does not end their work: it is returned together
  with the state in which it was raised.

  \<open>readoutPageRaised\<close> gives the members as \<^verbatim>\<open>readoutPage\<close> leaves them when it raises.
  Its exceptions come from the error-checking block: from the seeding of the counter,
  which has then written nothing, or from \<^verbatim>\<open>checkErrors\<close>, which raises at the card type
  or at the pattern before it counts an error, when only the seed has been written.
\<close>

definition readoutPageRaised :: "Config \<Rightarrow> nat \<Rightarrow> 'a Members_scheme \<Rightarrow> 'a Members_scheme" where
  "readoutPageRaised c pageAddress st =
     (case initializeCounter c (pageAt (memory st) pageAddress) st of
        Inl e \<Rightarrow> st
      | Inr st1 \<Rightarrow> st1)"

text \<open>\<^verbatim>\<open>for (int i = 0; i < pages; ++i) { ... }\<close>\<close>

function readPages ::
  "Config \<Rightarrow> nat \<Rightarrow> int \<Rightarrow> nat \<Rightarrow> 'c DmaLoop \<Rightarrow> (error \<times> 'c DmaLoop) + 'c DmaLoop" where
  "readPages c off pages i st =
     (if int i < pages then
        (let readoutCount = mReadoutCount st;
             st1 = st\<lparr>mReadoutCount := readoutCount + 1\<rparr>
         in case readoutPage c (mBufferBaseAddress c + off + i * mPageSize c) (mPageSize c)
                   readoutCount st1 of
              Inl e \<Rightarrow>
                Inl (e, readoutPageRaised c (mBufferBaseAddress c + off + i * mPageSize c) st1)
            | Inr st2 \<Rightarrow> readPages c off pages (i + 1) st2)
      else Inr st)"
  by pat_completeness auto
termination
  by (relation "measure (\<lambda>(c, off, pages, i, st). nat pages - i)") auto

declare readPages.simps [simp del]

text \<open>One pass of the readout thread's \<^verbatim>\<open>while (!isStopDma())\<close>.\<close>

definition readoutIteration ::
  "Config \<Rightarrow> 'c DmaLoop \<Rightarrow> (error \<times> 'c DmaLoop) + 'c DmaLoop" where
  "readoutIteration c st =
     (if \<not> readoutRunning st then Inr st
      else if mDmaLoopBreak st then Inr (st\<lparr>readoutRunning := False\<rparr>)
      else if \<not> mInfinitePages c \<and> maxPages c \<le> mReadoutCount st
      then Inr (st\<lparr>mDmaLoopBreak := True, readoutRunning := False\<rparr>)
      else (case queueRead (readoutQueue st) of
              None \<Rightarrow> Inr st
            | Some (off, q) \<Rightarrow>
                (case readPages c off (pagesPerSuperpage c) 0 (st\<lparr>readoutQueue := q\<rparr>) of
                   Inl r \<Rightarrow> Inl r
                 | Inr st1 \<Rightarrow>
                     (case queueWrite (freeQueue st1) off of
                        None \<Rightarrow> Inl (Exception ''Something went horribly wrong'' None, st1)
                      | Some fq \<Rightarrow> Inr (st1\<lparr>freeQueue := fq\<rparr>)))))"

subsection \<open>Interleaving\<close>

text \<open>
  The threads of \<^verbatim>\<open>dmaLoop\<close> share the two queues, the counters and the stop flag. An
  execution is a sequence of events, each taken as one step: a pass of the push thread, a
  pass of the readout thread, a pass of the low-priority thread (which sets the stop flag
  when \<^verbatim>\<open>isSigInt()\<close> holds), or the card changing its channel state and writing into the
  buffer.
\<close>

datatype 'c event =
    PushPoll
  | Readout
  | LowPriority bool
  | Hardware "'c \<Rightarrow> 'c" "(nat \<Rightarrow> u32) \<Rightarrow> (nat \<Rightarrow> u32)"

fun step ::
  "'c ChannelMasterInterface \<Rightarrow> Config \<Rightarrow> 'c event \<Rightarrow> 'c DmaLoop \<Rightarrow>
   (error \<times> 'c DmaLoop) + 'c DmaLoop" where
  "step ch c PushPoll st = Inr (pushIteration ch c st)"
| "step ch c Readout st = readoutIteration c st"
| "step ch c (LowPriority sigInt) st =
     Inr (if \<not> mDmaLoopBreak st \<and> sigInt then st\<lparr>mDmaLoopBreak := True\<rparr> else st)"
| "step ch c (Hardware hw dma) st =
     Inr (st\<lparr>mChannel := hw (mChannel st), memory := dma (memory st)\<rparr>)"

text \<open>
  An exception of the readout loop leaves \<^verbatim>\<open>dmaLoop\<close> through the destructors of
  \<^verbatim>\<open>pushFuture\<close> and \<^verbatim>\<open>lowPriorityFuture\<close>. Both come from
  \<^verbatim>\<open>std::async(std::launch::async, ...)\<close>, and the destructor of such a future waits for
  its task to end. So the exception is either still \<open>Blocked\<close>, the main thread waiting
  while the other loops go on in the given state (the flag says whether the low-priority
  loop is still running), or it has \<open>Propagated\<close> out of \<^verbatim>\<open>dmaLoop\<close>, which is when both
  tasks have ended.
\<close>

datatype 'c raised =
    Blocked error bool "'c DmaLoop"
  | Propagated error

definition joined :: "error \<Rightarrow> bool \<Rightarrow> 'c DmaLoop \<Rightarrow> 'c raised" where
  "joined err lowPriorityRunning st =
     (if \<not> pushRunning st \<and> \<not> lowPriorityRunning then Propagated err
      else Blocked err lowPriorityRunning st)"

text \<open>
  One event while the exception is in flight. The push loop and the card go on as before;
  the readout loop is gone; the low-priority loop
  \<^verbatim>\<open>while (!isStopDma()) { lowPriorityTasks(); ... }\<close> ends at the test that finds the stop
  flag set, and nothing but its own \<^verbatim>\<open>isSigInt()\<close> branch can set the flag now.
\<close>

fun unwind ::
  "'c ChannelMasterInterface \<Rightarrow> Config \<Rightarrow> 'c event \<Rightarrow> 'c raised \<Rightarrow> 'c raised" where
  "unwind ch c e (Propagated err) = Propagated err"
| "unwind ch c PushPoll (Blocked err lp st) = joined err lp (pushIteration ch c st)"
| "unwind ch c Readout (Blocked err lp st) = Blocked err lp st"
| "unwind ch c (LowPriority sigInt) (Blocked err lp st) =
     (if \<not> lp then Blocked err lp st
      else if mDmaLoopBreak st then joined err False st
      else Blocked err True (if sigInt then st\<lparr>mDmaLoopBreak := True\<rparr> else st))"
| "unwind ch c (Hardware hw dma) (Blocked err lp st) =
     Blocked err lp (st\<lparr>mChannel := hw (mChannel st), memory := dma (memory st)\<rparr>)"

fun unwinding ::
  "'c ChannelMasterInterface \<Rightarrow> Config \<Rightarrow> 'c event list \<Rightarrow> 'c raised \<Rightarrow> 'c raised" where
  "unwinding ch c [] r = r"
| "unwinding ch c (e # es) r = unwinding ch c es (unwind ch c e r)"

text \<open>
  An execution from a state of the running loops. The result is the state reached, or
  the exception of the readout loop and how far it has got. The pass that raises found the
  stop flag unset, so the low-priority loop is still running then.
\<close>

fun execution ::
  "'c ChannelMasterInterface \<Rightarrow> Config \<Rightarrow> 'c event list \<Rightarrow> 'c DmaLoop \<Rightarrow>
   'c raised + 'c DmaLoop" where
  "execution ch c [] st = Inr st"
| "execution ch c (e # es) st =
     (case step ch c e st of
        Inl (err, st1) \<Rightarrow>
          Inl (unwinding ch c es (Blocked err True (st1\<lparr>readoutRunning := False\<rparr>)))
      | Inr st' \<Rightarrow> execution ch c es st')"

text \<open>
  \<^verbatim>\<open>dmaLoop\<close>: the start, then an execution of the threads. An exception of the start is
  raised before the threads exist and propagates at once.
\<close>

definition dmaLoop ::
  "'c ChannelMasterInterface \<Rightarrow> Config \<Rightarrow> 'c event list \<Rightarrow> Members \<Rightarrow> 'c \<Rightarrow>
   'c raised + 'c DmaLoop" where
  "dmaLoop ch c es m chan =
     (case dmaLoopStart c m chan of
        Inl err \<Rightarrow> Inl (Propagated err)
      | Inr st \<Rightarrow> execution ch c es st)"

section \<open>Configuration in \<^verbatim>\<open>run\<close>\<close>

text \<open>
  \<^verbatim>\<open>boost::lexical_cast<size_t>\<close> is a library function: an optional sign, then one or
  more decimal digits and nothing else; a value that does not fit 64 bits is rejected, and
  a minus sign negates modulo \<open>2^64\<close>. \<open>None\<close> stands for \<^verbatim>\<open>bad_lexical_cast\<close>.
\<close>

definition digitOf :: "char \<Rightarrow> nat option" where
  "digitOf ch =
     (if (48::nat) \<le> of_char ch \<and> of_char ch \<le> (57::nat)
      then Some (of_char ch - 48) else None)"

fun digitsValue :: "string \<Rightarrow> nat \<Rightarrow> nat option" where
  "digitsValue [] acc = Some acc"
| "digitsValue (ch # cs) acc =
     (case digitOf ch of
        None \<Rightarrow> None
      | Some d \<Rightarrow> digitsValue cs (10 * acc + d))"

definition lexical_cast :: "string \<Rightarrow> nat option" where
  "lexical_cast s =
     (let (neg, ds) =
            (case s of
               [] \<Rightarrow> (False, s)
             | ch # cs \<Rightarrow>
                 if ch = CHR ''-'' then (True, cs)
                 else if ch = CHR ''+'' then (False, cs)
                 else (False, s))
      in if ds = [] then None
         else (case digitsValue ds 0 of
                 None \<Rightarrow> None
               | Some v \<Rightarrow>
                   if 2 ^ 64 \<le> v then None
                   else Some (if neg then (2 ^ 64 - v) mod 2 ^ 64 else v)))"

datatype HugePageSize = SIZE_2MB | SIZE_1GB

text \<open>The block \<^verbatim>\<open>// Parse buffer size\<close> of \<^verbatim>\<open>run\<close>: \<^verbatim>\<open>mBufferSize\<close> and the hugepage size.\<close>

definition parseBufferSize :: "string \<Rightarrow> error + (nat \<times> HugePageSize)" where
  "parseBufferSize input =
     (if length input < 3 then Inl (Exception ''Invalid buffer size given'' None)
      else
        (let u = drop (length input - 2) input in
         case lexical_cast (take (length input - 2) input) of
           None \<Rightarrow> Inl (ParameterException ''Invalid buffer size argument'')
         | Some v \<Rightarrow>
             if u = ''MB'' then
               (let v2 = max 2 v
                in Inr (((v2 - v2 mod 2) * 1024 * 1024) mod 2 ^ 64, SIZE_2MB))
             else if u = ''GB'' then
               Inr ((v * 1024 * 1024 * 1024) mod 2 ^ 64, SIZE_1GB)
             else Inl (ParameterException ''Invalid buffer size unit given'')))"

text \<open>
  \<^verbatim>\<open>run\<close> up to \<^verbatim>\<open>mInfinitePages = ...\<close>: the checks that precede the creation of the
  buffer and of the channel. The result is \<^verbatim>\<open>mSuperpageSize\<close>, \<^verbatim>\<open>mBufferSize\<close> and the
  hugepage size.
\<close>

definition runConfiguration ::
  "'a OptionsStruct_scheme \<Rightarrow> error + (nat \<times> nat \<times> HugePageSize)" where
  "runConfiguration opts =
     (if fileOutputAscii opts \<and> fileOutputBin opts
      then Inl (Exception ''File output can't be both ASCII and binary'' None)
      else
        (let superpageSize = (superpageSizeMiB opts * 1024 * 1024) mod 2 ^ 64 in
         case parseBufferSize (bufferSizeString opts) of
           Inl e \<Rightarrow> Inl e
         | Inr (bufferSize, hugePageSize) \<Rightarrow>
             if bufferSize < superpageSize
             then Inl (ParameterException ''Buffer size smaller than superpage size'')
             else Inr (superpageSize, bufferSize, hugePageSize)))"

text \<open>
  The calls on the card that \<^verbatim>\<open>run\<close> makes before \<^verbatim>\<open>dmaLoop\<close>, in order: none when
  the configuration is refused.
\<close>

datatype ChannelCall = GetMaster | ResetChannel | StartDma

definition runStartup ::
  "'a OptionsStruct_scheme \<Rightarrow> ChannelCall list \<times> (error + (nat \<times> nat \<times> HugePageSize))" where
  "runStartup opts =
     (case runConfiguration opts of
        Inl e \<Rightarrow> ([], Inl e)
      | Inr r \<Rightarrow>
          ([GetMaster] @ (if resetChannel opts then [ResetChannel] else []) @ [StartDma],
           Inr r))"

text \<open>
  Modelled from the spec: \<^verbatim>\<open>Program::execute\<close> is not in the sources. Section 6 of the
  specification: the exit status is non-zero on a configuration error and zero otherwise.
\<close>

definition execute :: "error + 'a \<Rightarrow> int" where
  "execute r = (case r of Inl e \<Rightarrow> 1 | Inr x \<Rightarrow> 0)"

section \<open>A card without stalls\<close>

text \<open>
  Modelled from the spec: a card channel as section 6 of the specification describes the
  card handle (submission slots, the count of queued superpages, the head superpage, pop).
  It keeps the pushed superpages in order, has \<open>slots\<close> places, and fills a superpage as
  soon as it is pushed.
\<close>

record SimChannel =
  slots :: nat
  superpages :: "Superpage list"

definition simChannel :: "SimChannel ChannelMasterInterface" where
  "simChannel =
     \<lparr> fillSuperpages = (\<lambda>ch. ch),
       getSuperpageQueueAvailable = (\<lambda>ch. slots ch - length (superpages ch)),
       pushSuperpage = (\<lambda>sp ch. ch\<lparr>superpages := superpages ch @ [sp\<lparr>received := spSize sp\<rparr>]\<rparr>),
       getSuperpageQueueCount = (\<lambda>ch. length (superpages ch)),
       getSuperpage = (\<lambda>ch. hd (superpages ch)),
       popSuperpage = (\<lambda>ch. ch\<lparr>superpages := tl (superpages ch)\<rparr>) \<rparr>"

text \<open>Push and readout passes in turn, \<open>k\<close> times.\<close>

fun rounds :: "nat \<Rightarrow> 'c event list" where
  "rounds 0 = []"
| "rounds (Suc k) = PushPoll # Readout # rounds k"

section \<open>Predicates used in the statements\<close>

text \<open>
  The error log never outruns the error tally, stays below the cap, and is empty in a run
  that is not verbose.
\<close>

definition errorLogInv :: "Config \<Rightarrow> 'a Members_scheme \<Rightarrow> bool" where
  "errorLogInv c st =
     (int (length (mErrorStream st)) \<le> mErrorCount st \<and>
      length (mErrorStream st) < 1000 \<and>
      (\<not> isVerbose c \<longrightarrow> mErrorStream st = []))"

text \<open>
  What reading out a page may change: not the page counts, the stop flag or anything
  beyond the members; the error tally does not go down and the log invariant is kept.
\<close>

definition pageEffect :: "Config \<Rightarrow> 'a Members_scheme \<Rightarrow> 'a Members_scheme \<Rightarrow> bool" where
  "pageEffect c st st' =
     (mPushCount st' = mPushCount st \<and>
      mReadoutCount st' = mReadoutCount st \<and>
      mDmaLoopBreak st' = mDmaLoopBreak st \<and>
      Members.more st' = Members.more st \<and>
      mErrorCount st \<le> mErrorCount st' \<and>
      (errorLogInv c st \<longrightarrow> errorLogInv c st'))"

text \<open>A configuration under which the verification of a page raises no exception.\<close>

definition verifiable :: "Config \<Rightarrow> bool" where
  "verifiable c =
     (noErrorCheck c \<or> (mCardType c \<noteq> UnknownCard \<and> generatorPattern c \<noteq> Random))"

subsection \<open>The bounded run\<close>

text \<open>
  What holds of the readout count in an execution without interrupt, for a page limit
  \<open>maxPages c\<close>: it is a multiple of the pages per superpage, less than a superpage
  beyond the limit, and the loop has stopped only at or beyond the limit, with the stop
  flag set by the loop itself.
\<close>

definition readoutInv :: "Config \<Rightarrow> 'c DmaLoop \<Rightarrow> bool" where
  "readoutInv c st =
     (mReadoutCount st mod pagesPerSuperpage c = 0 \<and>
      mReadoutCount st < maxPages c + pagesPerSuperpage c \<and>
      (\<not> readoutRunning st \<longrightarrow> maxPages c \<le> mReadoutCount st) \<and>
      (mDmaLoopBreak st \<longleftrightarrow> \<not> readoutRunning st))"

text \<open>The least multiple of the pages per superpage that reaches the page limit.\<close>

definition superpagesNeeded :: "Config \<Rightarrow> int" where
  "superpagesNeeded c = (maxPages c + pagesPerSuperpage c - 1) div pagesPerSuperpage c"

definition finalReadoutCount :: "Config \<Rightarrow> int" where
  "finalReadoutCount c = superpagesNeeded c * pagesPerSuperpage c"

text \<open>A superpage as the card without stalls holds it: pushed and filled.\<close>

definition filledSuperpage :: "Config \<Rightarrow> nat \<Rightarrow> Superpage" where
  "filledSuperpage c off = \<lparr>offset = off, spSize = mSuperpageSize c, received = mSuperpageSize c\<rparr>"

text \<open>
  The state between two rounds of the run without stalls, after \<open>j\<close> superpages: both
  loops run, both counts stand at \<open>j\<close> superpages, the readout queue is empty, and the
  offsets of the buffer are shared between the free queue and the card.
\<close>

definition roundInv :: "Config \<Rightarrow> nat \<Rightarrow> SimChannel DmaLoop \<Rightarrow> bool" where
  "roundInv c j st =
     (pushRunning st \<and> readoutRunning st \<and> \<not> mDmaLoopBreak st \<and>
      mPushCount st = int j * pagesPerSuperpage c \<and>
      mReadoutCount st = int j * pagesPerSuperpage c \<and>
      readoutQueue st = \<lparr>qsize = nat (maxSuperpages c) + 1, records = []\<rparr> \<and>
      qsize (freeQueue st) = nat (maxSuperpages c) + 1 \<and>
      1 \<le> slots (mChannel st) \<and>
      (\<forall>sp \<in> set (superpages (mChannel st)). isFilled sp) \<and>
      mset (records (freeQueue st)) + mset (map offset (superpages (mChannel st))) =
        mset (map (indexToOffset c) [0 ..< nat (maxSuperpages c)]))"

text \<open>
  The state in the middle of such a round: the push thread has handed the superpage at
  offset \<open>off\<close> to the readout queue.
\<close>

definition handedInv :: "Config \<Rightarrow> nat \<Rightarrow> nat \<Rightarrow> SimChannel DmaLoop \<Rightarrow> bool" where
  "handedInv c j off st =
     (pushRunning st \<and> readoutRunning st \<and> \<not> mDmaLoopBreak st \<and>
      mPushCount st = int (Suc j) * pagesPerSuperpage c \<and>
      mReadoutCount st = int j * pagesPerSuperpage c \<and>
      readoutQueue st = \<lparr>qsize = nat (maxSuperpages c) + 1, records = [off]\<rparr> \<and>
      qsize (freeQueue st) = nat (maxSuperpages c) + 1 \<and>
      1 \<le> slots (mChannel st) \<and>
      (\<forall>sp \<in> set (superpages (mChannel st)). isFilled sp) \<and>
      mset (records (freeQueue st)) + mset (map offset (superpages (mChannel st))) + {#off#} =
        mset (map (indexToOffset c) [0 ..< nat (maxSuperpages c)]))"

section \<open>Example data\<close>

definition exampleOptions :: OptionsStruct where
  "exampleOptions =
     \<lparr> maxPages = 3, fileOutputAscii = False, fileOutputBin = False, resetChannel = False,
       randomPause = False, noErrorCheck = False, pageReset = False, noResyncCounter = False,
       bufferSizeString = ''10MB'', superpageSizeMiB = 1, generatorPattern = Incremental \<rparr>"

definition exampleConfig :: Config where
  "exampleConfig =
     \<lparr> maxPages = 3, fileOutputAscii = False, fileOutputBin = False, resetChannel = False,
       randomPause = False, noErrorCheck = False, pageReset = False, noResyncCounter = False,
       bufferSizeString = ''10MB'', superpageSizeMiB = 1, generatorPattern = Incremental,
       isVerbose = True, mCardType = Cru, mPageSize = 64, mSuperpageSize = 1048576,
       mBufferSize = 10485760, mBufferBaseAddress = 0 \<rparr>"

text \<open>A page as the CRU data generator writes it for a counter value.\<close>

definition cruPage :: "u32 \<Rightarrow> nat \<Rightarrow> u32" where
  "cruPage counter i = (if i mod 8 = 0 then counter * 256 + of_nat i div 8 else 0)"

text \<open>A page as the C-RORC data generator writes it: the counter, then \<open>i - 1\<close> at word \<open>i\<close>.\<close>

definition crorcPage :: "u32 \<Rightarrow> nat \<Rightarrow> u32" where
  "crorcPage counter i = (if i = 0 then counter else of_nat i - 1)"

text \<open>
  A small run: two superpages of two pages each, a limit of three pages, a card with two
  slots, a buffer of zeros.
\<close>

definition smallConfig :: Config where
  "smallConfig =
     \<lparr> maxPages = 3, fileOutputAscii = False, fileOutputBin = False, resetChannel = False,
       randomPause = False, noErrorCheck = False, pageReset = False, noResyncCounter = False,
       bufferSizeString = ''2MB'', superpageSizeMiB = 1, generatorPattern = Incremental,
       isVerbose = False, mCardType = Cru, mPageSize = 524288, mSuperpageSize = 1048576,
       mBufferSize = 2097152, mBufferBaseAddress = 0 \<rparr>"

definition smallCard :: SimChannel where
  "smallCard = \<lparr> slots = 2, superpages = [] \<rparr>"




text \<open>
  The state of the small run when the threads start, a state in which the readout queue
  is full while the card holds a filled superpage, and a state in which the free queue
  holds every offset of the buffer while offset 0 is on the readout queue as well.
\<close>

definition smallStart :: "SimChannel DmaLoop" where
  "smallStart =
     \<lparr> mPushCount = 0, mReadoutCount = 0, mErrorCount = 0, mErrorStream = [],
       mDataGeneratorCounter = - 1, mDmaLoopBreak = False, memory = (\<lambda>a. 0),
       mChannel = smallCard, freeQueue = \<lparr>qsize = 3, records = [0, 1048576]\<rparr>,
       readoutQueue = \<lparr>qsize = 3, records = []\<rparr>, pushRunning = True, readoutRunning = True \<rparr>"

definition handoffBlocked :: "SimChannel DmaLoop" where
  "handoffBlocked =
     smallStart\<lparr>mChannel := \<lparr>slots = 2,
                    superpages = [\<lparr>offset = 0, spSize = 1048576, received = 1048576\<rparr>]\<rparr>,
                freeQueue := \<lparr>qsize = 3, records = []\<rparr>,
                readoutQueue := \<lparr>qsize = 3, records = [1048576, 2097152]\<rparr>\<rparr>"

definition returnBlocked :: "SimChannel DmaLoop" where
  "returnBlocked =
     smallStart\<lparr>mPushCount := 2, mChannel := \<lparr>slots = 1, superpages = []\<rparr>,
                readoutQueue := \<lparr>qsize = 3, records = [0]\<rparr>\<rparr>"

text \<open>
  A card with a single slot, which at the start of the run still holds a filled superpage
  for offset 0. After one pass of the push thread the small run is in \<open>returnBlocked\<close>.
\<close>

definition staleCard :: SimChannel where
  "staleCard =
     \<lparr> slots = 1, superpages = [\<lparr>offset = 0, spSize = 1048576, received = 1048576\<rparr>] \<rparr>"

text \<open>
  A configuration with superpages of 2048 MiB in a buffer of 4 GiB and a DMA page of one
  byte: the quotient of superpage size and page size is \<open>2\<^sup>3\<^sup>1\<close>.
\<close>

definition wideConfig :: Config where
  "wideConfig =
     \<lparr> maxPages = 3, fileOutputAscii = False, fileOutputBin = False, resetChannel = False,
       randomPause = False, noErrorCheck = False, pageReset = False, noResyncCounter = False,
       bufferSizeString = ''4GB'', superpageSizeMiB = 2048, generatorPattern = Incremental,
       isVerbose = False, mCardType = Cru, mPageSize = 1, mSuperpageSize = 2147483648,
       mBufferSize = 4294967296, mBufferBaseAddress = 0 \<rparr>"

section \<open>Narrowing and widening the counter\<close>


lemma sentinel: "(ucast (v :: 32 word) :: 64 word) \<noteq> - 1"
proof
  assume "(ucast v :: 64 word) = - 1"
  then have "bit (ucast v :: 64 word) 63 = bit (- 1 :: 64 word) 63" by simp
  moreover have "\<not> bit (ucast v :: 64 word) 63"
    using bit_imp_le_length [of v 63] by (auto simp add: bit_ucast_iff)
  moreover have "bit (- 1 :: 64 word) 63" by simp
  ultimately show False by simp
qed

section \<open>The verifier: loops\<close>

lemma checkCru_clean:
  "(\<And>m. i + 8 * m < n \<Longrightarrow> page (i + 8 * m) = f (of_nat (i + 8 * m))) \<Longrightarrow>
   checkCru c f page n ev counter i st = (False, st)"
proof (induction c f page n ev counter i st rule: checkCru.induct)
  case (1 c f page n ev counter i st)
  show ?case
  proof (cases "i < n")
    case False
    then show ?thesis by (simp add: checkCru.simps)
  next
    case True
    have here: "page i = f (of_nat i)" using "1.prems" [of 0] True by simp
    have rest: "\<And>m. (i + PATTERN_STRIDE) + 8 * m < n \<Longrightarrow>
        page ((i + PATTERN_STRIDE) + 8 * m) = f (of_nat ((i + PATTERN_STRIDE) + 8 * m))"
      using "1.prems" [of "Suc m" for m] by (simp add: PATTERN_STRIDE_def add.assoc)
    have "checkCru c f page n ev counter (i + PATTERN_STRIDE) st = (False, st)"
      using "1.IH" [OF True refl refl _ rest] here by simp
    then show ?thesis using True here by (subst checkCru.simps) simp
  qed
qed

lemma checkCru_mismatch:
  "i + 8 * m < n \<Longrightarrow>
   (\<And>k. k < m \<Longrightarrow> page (i + 8 * k) = f (of_nat (i + 8 * k))) \<Longrightarrow>
   page (i + 8 * m) \<noteq> f (of_nat (i + 8 * m)) \<Longrightarrow>
   checkCru c f page n ev counter i st =
     (True, reportErrorCru c ev (i + 8 * m) counter (f (of_nat (i + 8 * m))) (page (i + 8 * m)) st)"
proof (induction m arbitrary: i)
  case 0
  then show ?case by (subst checkCru.simps) simp
next
  case (Suc m)
  have lt: "i < n" using Suc.prems(1) by simp
  have here: "page i = f (of_nat i)" using Suc.prems(2) [of 0] by simp
  have a: "(i + 8) + 8 * m < n" using Suc.prems(1) by simp
  have b: "\<And>k. k < m \<Longrightarrow> page ((i + 8) + 8 * k) = f (of_nat ((i + 8) + 8 * k))"
    using Suc.prems(2) [of "Suc k" for k] by (simp add: add.assoc)
  have c: "page ((i + 8) + 8 * m) \<noteq> f (of_nat ((i + 8) + 8 * m))"
    using Suc.prems(3) by (simp add: add.assoc)
  have e: "i + 8 + 8 * m = i + 8 * Suc m" by simp
  show ?case
    using Suc.IH [OF a b c] lt here unfolding e
    by (subst checkCru.simps) (simp add: PATTERN_STRIDE_def)
qed

section \<open>The verifier: what a page readout changes\<close>

lemma pageEffect_refl: "pageEffect c st st"
  by (simp add: pageEffect_def)

lemma pageEffect_trans: "pageEffect c st st1 \<Longrightarrow> pageEffect c st1 st2 \<Longrightarrow> pageEffect c st st2"
  by (simp add: pageEffect_def)

lemma addError_eq:
  "addError c e i g x a st =
     st\<lparr>mErrorCount := mErrorCount st + 1,
        mErrorStream :=
          (if isVerbose c \<and> mErrorCount st + 1 < 1000
           then mErrorStream st @ [\<lparr>event = e, index = i, cnt = g, exp = x, val = a\<rparr>]
           else mErrorStream st)\<rparr>"
  by (simp add: addError_def Let_def MAX_RECORDED_ERRORS_def)

lemma reportErrorCru_eq:
  "reportErrorCru c e i g x a st =
     st\<lparr>mErrorCount := mErrorCount st + 1,
        mErrorStream :=
          (if isVerbose c \<and> mErrorCount st + 1 < 1000
           then mErrorStream st @ [\<lparr>event = e, index = i, cnt = g, exp = x, val = a\<rparr>]
           else mErrorStream st)\<rparr>"
  by (simp add: reportErrorCru_def Let_def MAX_RECORDED_ERRORS_def)

lemma addError_effect: "pageEffect c st (addError c e i g x a st)"
  by (simp add: addError_eq pageEffect_def errorLogInv_def)

lemma reportErrorCru_effect: "pageEffect c st (reportErrorCru c e i g x a st)"
  by (simp add: reportErrorCru_eq pageEffect_def errorLogInv_def)

lemma checkCru_effect: "pageEffect c st (snd (checkCru c f page n e g i st))"
proof (induction c f page n e g i st rule: checkCru.induct)
  case (1 c f page n e g i st)
  show ?case
  proof (cases "i < n \<and> page i = f (of_nat i)")
    case True
    then show ?thesis using "1.IH" by (subst checkCru.simps) simp
  next
    case False
    then show ?thesis
      by (subst checkCru.simps) (auto simp: reportErrorCru_effect pageEffect_refl)
  qed
qed

lemma scanCrorc_effect: "pageEffect c st (snd (scanCrorc c f page n e g i st))"
proof (induction c f page n e g i st rule: scanCrorc.induct)
  case (1 c f page n e g i st)
  show ?case
  proof (cases "i < n \<and> page i = f (of_nat i)")
    case True
    then show ?thesis using "1.IH" by (subst scanCrorc.simps) simp
  next
    case False
    then show ?thesis
      by (subst scanCrorc.simps) (auto simp: addError_effect pageEffect_refl)
  qed
qed

lemma checkCrorc_effect: "pageEffect c st (snd (checkCrorc c f page n e g st))"
  unfolding checkCrorc_def Let_def
  by (rule pageEffect_trans [OF _ scanCrorc_effect]) (simp add: addError_effect pageEffect_refl)

lemma checkCru_effect2:
  "checkCru c f page n e g i st = (b, st') \<Longrightarrow> pageEffect c st st'"
  using checkCru_effect [where c = c and f = f and page = page and n = n and e = e and g = g
      and i = i and st = st] by simp

lemma checkCrorc_effect2:
  "checkCrorc c f page n e g st = (b, st') \<Longrightarrow> pageEffect c st st'"
  using checkCrorc_effect [where c = c and f = f and page = page and n = n and e = e and g = g
      and st = st] by simp

lemma checkErrorsCru_effect:
  "checkErrorsCru c page ps e g st = Inr (b, st') \<Longrightarrow> pageEffect c st st'"
  by (auto simp: checkErrorsCru_def split: GeneratorPattern.splits
      elim: checkCru_effect2)

lemma checkErrorsCrorc_effect:
  "checkErrorsCrorc c page ps e g st = Inr (b, st') \<Longrightarrow> pageEffect c st st'"
  by (auto simp: checkErrorsCrorc_def split: GeneratorPattern.splits
      elim: checkCrorc_effect2)

lemma checkErrors_effect:
  "checkErrors c page ps e g st = Inr (b, st') \<Longrightarrow> pageEffect c st st'"
  by (auto simp: checkErrors_def split: CardType.splits
      dest: checkErrorsCru_effect checkErrorsCrorc_effect)

lemma counter_update_effect: "pageEffect c st (st\<lparr>mDataGeneratorCounter := v\<rparr>)"
  by (simp add: pageEffect_def errorLogInv_def)

lemma initializeCounter_effect:
  "initializeCounter c page st = Inr st' \<Longrightarrow> pageEffect c st st'"
  by (auto simp: initializeCounter_def counter_update_effect pageEffect_refl
      split: if_splits sum.splits)

lemma resyncCounter_effect:
  "resyncCounter c page h st = Inr st' \<Longrightarrow> pageEffect c st st'"
  by (auto simp: resyncCounter_def counter_update_effect pageEffect_refl
      split: if_splits sum.splits)

lemma errorCheckPage_effect:
  assumes "errorCheckPage c page ps rc st = Inr st'"
  shows "pageEffect c st st'"
proof -
  from assms obtain st1 h st2 where
    a: "initializeCounter c page st = Inr st1" and
    b: "checkErrors c page ps rc (ucast (mDataGeneratorCounter st1)) st1 = Inr (h, st2)" and
    d: "resyncCounter c page h st2 = Inr st'"
    unfolding errorCheckPage_def by (auto split: sum.splits)
  show ?thesis
    using initializeCounter_effect [OF a] checkErrors_effect [OF b] resyncCounter_effect [OF d]
    by (blast intro: pageEffect_trans)
qed

lemma resetPage_effect: "pageEffect c st (resetPage a ps st)"
  by (simp add: resetPage_def pageEffect_def errorLogInv_def)

lemma readoutPage_effect:
  assumes "readoutPage c a ps rc st = Inr st'"
  shows "pageEffect c st st'"
proof -
  let ?chk = "if \<not> noErrorCheck c
            then errorCheckPage c (pageAt (memory st) a) ps rc st
            else Inr st"
  from assms obtain st1 where a: "?chk = Inr st1"
    unfolding readoutPage_def by (cases ?chk) simp_all
  have e1: "pageEffect c st st1"
    using a by (auto split: if_splits simp: pageEffect_refl dest: errorCheckPage_effect)
  let ?st2 = "if pageReset c then resetPage a ps st1 else st1"
  have e2: "pageEffect c st1 ?st2" by (simp add: resetPage_effect pageEffect_refl)
  have "st' = ?st2\<lparr>mDataGeneratorCounter := mDataGeneratorCounter ?st2 + 1\<rparr>"
    using assms a unfolding readoutPage_def by (simp add: Let_def)
  then have e3: "pageEffect c ?st2 st'" by (simp only: counter_update_effect)
  show ?thesis using e1 e2 e3 by (blast intro: pageEffect_trans)
qed




section \<open>The verifier leaves the counter and the buffer alone\<close>









lemma getCounter_cases:
  "getDataGeneratorCounterFromPage c page =
     (case mCardType c of
        Crorc \<Rightarrow> Inr (page 0)
      | Cru \<Rightarrow> Inr (page 0 div 256)
      | UnknownCard \<Rightarrow> Inl (runtime_error ''Error checking unsupported for this card type''))"
  by (simp add: getDataGeneratorCounterFromPage_def getEventNumber_def split: CardType.splits)

lemma checkErrors_card:
  "checkErrors c page ps rc g st = Inr r \<Longrightarrow> mCardType c \<noteq> UnknownCard"
  by (auto simp: checkErrors_def split: CardType.splits)







section \<open>The DMA loop: what a pass changes\<close>

lemma more_fields:
  fixes st st' :: "'c DmaLoop"
  assumes "Members.more st' = Members.more st"
  shows "mChannel st' = mChannel st" "freeQueue st' = freeQueue st"
    "readoutQueue st' = readoutQueue st"
    "pushRunning st' = pushRunning st" "readoutRunning st' = readoutRunning st"
  using assms by (cases st; cases st'; simp)+

lemma readPages_effect:
  "readPages c off pages i st = Inr st' \<Longrightarrow>
   mPushCount st' = mPushCount st \<and> mDmaLoopBreak st' = mDmaLoopBreak st \<and>
   Members.more st' = Members.more st \<and> mErrorCount st \<le> mErrorCount st' \<and>
   (errorLogInv c st \<longrightarrow> errorLogInv c st') \<and>
   mReadoutCount st' = mReadoutCount st + (if int i < pages then pages - int i else 0)"
proof (induction c off pages i st rule: readPages.induct)
  case (1 c off pages i st)
  show ?case
  proof (cases "int i < pages")
    case False
    then show ?thesis using "1.prems" by (subst (asm) readPages.simps) simp
  next
    case True
    let ?st1 = "st\<lparr>mReadoutCount := mReadoutCount st + 1\<rparr>"
    let ?r = "readoutPage c (mBufferBaseAddress c + off + i * mPageSize c) (mPageSize c)
                (mReadoutCount st) ?st1"
    from "1.prems" True obtain st2 where r: "?r = Inr st2"
      and rest: "readPages c off pages (i + 1) st2 = Inr st'"
      by (subst (asm) readPages.simps) (auto simp: Let_def split: sum.splits)
    have e: "pageEffect c ?st1 st2" using r by (rule readoutPage_effect)
    note ih = "1.IH" [OF True refl refl r rest]
    have inv1: "errorLogInv c ?st1 = errorLogInv c st" by (simp add: errorLogInv_def)
    show ?thesis using e ih True inv1
      by (auto simp: pageEffect_def)
  qed
qed

lemma pushFreeSuperpages_shape:
  "\<exists>fq chn. pushFreeSuperpages ch c st = st\<lparr>freeQueue := fq, mChannel := chn\<rparr>"
proof (induction ch c st rule: pushFreeSuperpages.induct)
  case (1 ch c st)
  show ?case
  proof (cases "getSuperpageQueueAvailable ch (mChannel st) \<noteq> 0")
    case False
    then have "pushFreeSuperpages ch c st = st\<lparr>freeQueue := freeQueue st, mChannel := mChannel st\<rparr>"
      by (subst pushFreeSuperpages.simps) simp
    then show ?thesis by blast
  next
    case True
    show ?thesis
    proof (cases "queueRead (freeQueue st)")
      case None
      then have "pushFreeSuperpages ch c st = st\<lparr>freeQueue := freeQueue st, mChannel := mChannel st\<rparr>"
        by (subst pushFreeSuperpages.simps) simp
      then show ?thesis by blast
    next
      case (Some p)
      obtain off q where p: "p = (off, q)" by (cases p)
      from "1.IH" [OF True Some [unfolded p] refl] obtain fq chn where
        "pushFreeSuperpages ch c
            (st\<lparr>freeQueue := q,
                mChannel := pushSuperpage ch
                  \<lparr>offset = off, spSize = mSuperpageSize c, received = 0\<rparr> (mChannel st)\<rparr>)
         = st\<lparr>freeQueue := fq, mChannel := chn\<rparr>" by auto
      then have "pushFreeSuperpages ch c st = st\<lparr>freeQueue := fq, mChannel := chn\<rparr>"
        using True Some p by (subst pushFreeSuperpages.simps) simp
      then show ?thesis by blast
    qed
  qed
qed

lemma checkFilledSuperpages_shape:
  "checkFilledSuperpages ch c st = st \<or>
   (\<exists>q. queueWrite (readoutQueue st) (getOffset (getSuperpage ch (mChannel st))) = Some q \<and>
     checkFilledSuperpages ch c st =
       st\<lparr>readoutQueue := q, mPushCount := mPushCount st + pagesPerSuperpage c,
          mChannel := popSuperpage ch (mChannel st)\<rparr>)"
  by (auto simp: checkFilledSuperpages_def Let_def split: option.splits)

lemma pushFreeSuperpages_frame:
  "mPushCount (pushFreeSuperpages ch c st) = mPushCount st \<and>
   mReadoutCount (pushFreeSuperpages ch c st) = mReadoutCount st \<and>
   mErrorCount (pushFreeSuperpages ch c st) = mErrorCount st \<and>
   mErrorStream (pushFreeSuperpages ch c st) = mErrorStream st \<and>
   mDmaLoopBreak (pushFreeSuperpages ch c st) = mDmaLoopBreak st \<and>
   readoutQueue (pushFreeSuperpages ch c st) = readoutQueue st \<and>
   pushRunning (pushFreeSuperpages ch c st) = pushRunning st \<and>
   readoutRunning (pushFreeSuperpages ch c st) = readoutRunning st"
proof -
  obtain fq chn where "pushFreeSuperpages ch c st = st\<lparr>freeQueue := fq, mChannel := chn\<rparr>"
    using pushFreeSuperpages_shape [of ch c st] by auto
  then show ?thesis by simp
qed

lemma checkFilledSuperpages_frame:
  "(mPushCount (checkFilledSuperpages ch c st) = mPushCount st \<or>
    mPushCount (checkFilledSuperpages ch c st) = mPushCount st + pagesPerSuperpage c) \<and>
   mReadoutCount (checkFilledSuperpages ch c st) = mReadoutCount st \<and>
   mErrorCount (checkFilledSuperpages ch c st) = mErrorCount st \<and>
   mErrorStream (checkFilledSuperpages ch c st) = mErrorStream st \<and>
   mDmaLoopBreak (checkFilledSuperpages ch c st) = mDmaLoopBreak st \<and>
   pushRunning (checkFilledSuperpages ch c st) = pushRunning st \<and>
   readoutRunning (checkFilledSuperpages ch c st) = readoutRunning st"
  using checkFilledSuperpages_shape [of ch c st] by auto

lemma pushIteration_frame:
  "(mPushCount (pushIteration ch c st) = mPushCount st \<or>
    mPushCount (pushIteration ch c st) = mPushCount st + pagesPerSuperpage c) \<and>
   mReadoutCount (pushIteration ch c st) = mReadoutCount st \<and>
   mErrorCount (pushIteration ch c st) = mErrorCount st \<and>
   mErrorStream (pushIteration ch c st) = mErrorStream st \<and>
   mDmaLoopBreak (pushIteration ch c st) = mDmaLoopBreak st \<and>
   readoutRunning (pushIteration ch c st) = readoutRunning st"
proof -
  let ?st0 = "st\<lparr>mChannel := fillSuperpages ch (mChannel st)\<rparr>"
  note f = pushFreeSuperpages_frame [of ch c ?st0]
  note g = checkFilledSuperpages_frame [of ch c "pushFreeSuperpages ch c ?st0"]
  show ?thesis
  proof (cases "pushRunning st \<and> \<not> mDmaLoopBreak st \<and>
      \<not> (\<not> mInfinitePages c \<and> maxPages c \<le> mPushCount st)")
    case True
    then have "pushIteration ch c st = checkFilledSuperpages ch c (pushFreeSuperpages ch c ?st0)"
      by (auto simp: pushIteration_def)
    then show ?thesis using f g by simp
  next
    case False
    then have "pushIteration ch c st = st \<or> pushIteration ch c st = st\<lparr>pushRunning := False\<rparr>"
      by (auto simp: pushIteration_def)
    then show ?thesis by auto
  qed
qed

lemma readoutIteration_effect:
  assumes "readoutIteration c st = Inr st'"
  shows "mPushCount st' = mPushCount st \<and> mErrorCount st \<le> mErrorCount st' \<and>
    (errorLogInv c st \<longrightarrow> errorLogInv c st') \<and>
    (mReadoutCount st' = mReadoutCount st \<or>
     (readoutRunning st \<and> \<not> mDmaLoopBreak st \<and>
      \<not> (\<not> mInfinitePages c \<and> maxPages c \<le> mReadoutCount st) \<and>
      readoutRunning st' \<and> \<not> mDmaLoopBreak st' \<and>
      mReadoutCount st' = mReadoutCount st + (if 0 < pagesPerSuperpage c then pagesPerSuperpage c else 0)))"
proof (cases "readoutRunning st \<and> \<not> mDmaLoopBreak st \<and>
      \<not> (\<not> mInfinitePages c \<and> maxPages c \<le> mReadoutCount st)")
  case False
  then have "st' = st \<or> st' = st\<lparr>readoutRunning := False\<rparr> \<or>
     st' = st\<lparr>mDmaLoopBreak := True, readoutRunning := False\<rparr>"
    using assms by (auto simp: readoutIteration_def split: if_splits)
  then show ?thesis by (auto simp: errorLogInv_def)
next
  case True
  show ?thesis
  proof (cases "queueRead (readoutQueue st)")
    case None
    then have "st' = st" using assms True by (simp add: readoutIteration_def)
    then show ?thesis by simp
  next
    case (Some p)
    obtain off q where p: "p = (off, q)" by (cases p)
    let ?st0 = "st\<lparr>readoutQueue := q\<rparr>"
    from assms True Some p obtain st1 fq where
      r: "readPages c off (pagesPerSuperpage c) 0 ?st0 = Inr st1" and
      w: "queueWrite (freeQueue st1) off = Some fq" and
      e: "st' = st1\<lparr>freeQueue := fq\<rparr>"
      by (auto simp: readoutIteration_def split: sum.splits option.splits)
    note R = readPages_effect [OF r]
    have m: "readoutRunning st1 = readoutRunning ?st0"
      using R more_fields(5) [of st1 ?st0] by simp
    have inv0: "errorLogInv c ?st0 = errorLogInv c st" by (simp add: errorLogInv_def)
    have inv1: "errorLogInv c st' = errorLogInv c st1" by (simp add: errorLogInv_def e)
    show ?thesis using R True m inv0 inv1 e by auto
  qed
qed

section \<open>Executions\<close>

lemma step_effect:
  assumes "step ch c e st = Inr st'"
  shows "(0 \<le> pagesPerSuperpage c \<longrightarrow> mPushCount st \<le> mPushCount st') \<and>
         mReadoutCount st \<le> mReadoutCount st' \<and>
         mErrorCount st \<le> mErrorCount st' \<and>
         (errorLogInv c st \<longrightarrow> errorLogInv c st')"
proof (cases e)
  case PushPoll
  then have st': "st' = pushIteration ch c st" using assms by simp
  have inv: "errorLogInv c (pushIteration ch c st) = errorLogInv c st"
    using pushIteration_frame [of ch c st] by (simp add: errorLogInv_def)
  show ?thesis unfolding st' inv using pushIteration_frame [of ch c st] by auto
next
  case Readout
  then have "readoutIteration c st = Inr st'" using assms by simp
  from readoutIteration_effect [OF this] show ?thesis by auto
next
  case (LowPriority s)
  then show ?thesis using assms by (auto simp: errorLogInv_def)
next
  case (Hardware hw dma)
  then show ?thesis using assms by (auto simp: errorLogInv_def)
qed

lemma execution_effect:
  "execution ch c es st = Inr st' \<Longrightarrow>
     (0 \<le> pagesPerSuperpage c \<longrightarrow> mPushCount st \<le> mPushCount st') \<and>
     mReadoutCount st \<le> mReadoutCount st' \<and>
     mErrorCount st \<le> mErrorCount st' \<and>
     (errorLogInv c st \<longrightarrow> errorLogInv c st')"
proof (induction es arbitrary: st)
  case Nil
  then show ?case by simp
next
  case (Cons e es)
  from Cons.prems obtain st1 where s: "step ch c e st = Inr st1"
    and r: "execution ch c es st1 = Inr st'"
    by (auto split: sum.splits)
  show ?case using step_effect [OF s] Cons.IH [OF r] by auto
qed

lemma dmaLoopStart_members:
  assumes "dmaLoopStart c m chan = Inr st"
  shows "mPushCount st = mPushCount m \<and> mReadoutCount st = mReadoutCount m \<and>
         mErrorCount st = mErrorCount m \<and> mErrorStream st = mErrorStream m \<and>
         mDataGeneratorCounter st = mDataGeneratorCounter m \<and>
         mDmaLoopBreak st = mDmaLoopBreak m \<and> memory st = memory m \<and>
         mChannel st = chan \<and> pushRunning st \<and> readoutRunning st \<and>
         readoutQueue st = newQueue (nat (maxSuperpages c + 1))"
  using assms by (auto simp: dmaLoopStart_def split: if_splits sum.splits)

lemma toInt_small: "n < 2 ^ 31 \<Longrightarrow> toInt n = int n"
proof -
  assume a: "n < 2 ^ 31"
  then have b: "n < 2 ^ 32" by simp
  have t: "take_bit 32 n = n" using b by (simp add: take_bit_nat_eq_self)
  have "uint (word_of_nat n :: 32 word) = int n"
    by (simp add: unsigned_of_nat t)
  then have "sint (word_of_nat n :: 32 word) = signed_take_bit 31 (int n)"
    by (simp add: sint_uint)
  also have "\<dots> = int n"
    using a by (intro signed_take_bit_int_eq_self) auto
  finally show ?thesis by (simp add: toInt_def)
qed

section \<open>The small run, evaluated\<close>

lemmas loop_eval = dmaLoop_def dmaLoopStart_def maxSuperpages_def pagesPerSuperpage_def toInt_def
  newQueue_def queueWrite_def queueRead_def indexToOffset_def simChannel_def smallCard_def
  smallConfig_def initialMembers_def pushIteration_def checkFilledSuperpages_def
  readoutIteration_def mInfinitePages_def isFilled_def getOffset_def
  readoutPage_def errorCheckPage_def initializeCounter_def resyncCounter_def
  getDataGeneratorCounterFromPage_def getEventNumber_def pageAt_def checkErrors_def
  checkErrorsCru_def pageSize32_def reportErrorCru_def MAX_RECORDED_ERRORS_def PATTERN_STRIDE_def
  Let_def upt_rec pushFreeSuperpages.simps readPages.simps checkCru.simps numeral_3_eq_3


lemma small_start: "dmaLoopStart smallConfig (initialMembers (\<lambda>a. 0)) smallCard =
   Inr \<lparr> mPushCount = 0, mReadoutCount = 0, mErrorCount = 0, mErrorStream = [],
         mDataGeneratorCounter = - 1, mDmaLoopBreak = False, memory = (\<lambda>a. 0),
         mChannel = smallCard, freeQueue = \<lparr>qsize = 3, records = [0, 1048576]\<rparr>,
         readoutQueue = \<lparr>qsize = 3, records = []\<rparr>, pushRunning = True, readoutRunning = True \<rparr>"
  by (simp add: loop_eval)

lemma small_run:
  "map_sum id (\<lambda>st. (pushRunning st, readoutRunning st, mDmaLoopBreak st,
        mPushCount st, mReadoutCount st, mErrorCount st, mErrorStream st, records (freeQueue st),
        records (readoutQueue st), map offset (superpages (mChannel st))))
     (dmaLoop simChannel smallConfig (rounds 3) (initialMembers (\<lambda>a. 0)) smallCard)
   = Inr (False, False, True, 4, 4, 4, [], [1048576], [], [0])"
  by (simp add: loop_eval)


section \<open>The bounded run\<close>

lemma readoutIteration_cases:
  assumes "readoutIteration c st = Inr st'"
  shows "st' = st \<or>
    (readoutRunning st \<and> mDmaLoopBreak st \<and> st' = st\<lparr>readoutRunning := False\<rparr>) \<or>
    (readoutRunning st \<and> \<not> mDmaLoopBreak st \<and>
       \<not> mInfinitePages c \<and> maxPages c \<le> mReadoutCount st \<and>
       st' = st\<lparr>mDmaLoopBreak := True, readoutRunning := False\<rparr>) \<or>
    (readoutRunning st \<and> \<not> mDmaLoopBreak st \<and>
       \<not> (\<not> mInfinitePages c \<and> maxPages c \<le> mReadoutCount st) \<and>
       readoutRunning st' \<and> \<not> mDmaLoopBreak st' \<and>
       mReadoutCount st' =
         mReadoutCount st + (if 0 < pagesPerSuperpage c then pagesPerSuperpage c else 0))"
proof (cases "readoutRunning st \<and> \<not> mDmaLoopBreak st \<and>
      \<not> (\<not> mInfinitePages c \<and> maxPages c \<le> mReadoutCount st)")
  case False
  then show ?thesis using assms by (auto simp: readoutIteration_def split: if_splits)
next
  case True
  show ?thesis
  proof (cases "queueRead (readoutQueue st)")
    case None
    then have "st' = st" using assms True by (simp add: readoutIteration_def)
    then show ?thesis by simp
  next
    case (Some p)
    obtain off q where p: "p = (off, q)" by (cases p)
    let ?st0 = "st\<lparr>readoutQueue := q\<rparr>"
    from assms True Some p obtain st1 fq where
      r: "readPages c off (pagesPerSuperpage c) 0 ?st0 = Inr st1" and
      e: "st' = st1\<lparr>freeQueue := fq\<rparr>"
      by (auto simp: readoutIteration_def split: sum.splits option.splits)
    note R = readPages_effect [OF r]
    have m: "readoutRunning st1 = readoutRunning ?st0"
      using R more_fields(5) [of st1 ?st0] by simp
    show ?thesis using R True m e by auto
  qed
qed

lemma readoutIteration_inv:
  assumes "0 < maxPages c" and "0 < pagesPerSuperpage c"
    and "readoutInv c st" and "readoutIteration c st = Inr st'"
  shows "readoutInv c st'"
  using readoutIteration_cases [OF assms(4)] assms(1,2,3)
  by (auto simp: readoutInv_def mInfinitePages_def)

lemma step_inv:
  assumes "0 < maxPages c" and "0 < pagesPerSuperpage c"
    and "readoutInv c st" and "step ch c e st = Inr st'" and "e \<noteq> LowPriority True"
  shows "readoutInv c st'"
proof (cases e)
  case PushPoll
  then have "st' = pushIteration ch c st" using assms by simp
  then show ?thesis using pushIteration_frame [of ch c st] assms(3)
    by (simp add: readoutInv_def)
next
  case Readout
  then show ?thesis using assms readoutIteration_inv by auto
next
  case (LowPriority s)
  then show ?thesis using assms by auto
next
  case (Hardware hw dma)
  then show ?thesis using assms by (auto simp: readoutInv_def)
qed

lemma execution_inv:
  assumes "0 < maxPages c" and "0 < pagesPerSuperpage c"
  shows "readoutInv c st \<Longrightarrow> execution ch c es st = Inr st' \<Longrightarrow>
     LowPriority True \<notin> set es \<Longrightarrow> readoutInv c st'"
proof (induction es arbitrary: st)
  case Nil
  then show ?case by simp
next
  case (Cons e es)
  from Cons.prems(2) obtain st1 where s: "step ch c e st = Inr st1"
    and r: "execution ch c es st1 = Inr st'"
    by (auto split: sum.splits)
  have "readoutInv c st1"
    using step_inv [OF assms Cons.prems(1) s] Cons.prems(3) by auto
  then show ?case using Cons.IH [OF _ r] Cons.prems(3) by simp
qed

lemma least_multiple:
  fixes n p k :: int
  assumes "0 < p" and "k mod p = 0" and "n \<le> k" and "k < n + p"
  shows "k = (n + p - 1) div p * p"
proof -
  obtain d where d: "k = p * d" using assms(2) by (auto simp: mod_eq_0_iff_dvd)
  let ?r = "n + p - 1 - k"
  have r: "0 \<le> ?r" "?r < p" using assms by simp_all
  have eq: "n + p - 1 = p * d + ?r" using d by simp
  have "(n + p - 1) div p = (p * d + ?r) div p"
    using arg_cong [OF eq, of "\<lambda>x. x div p"] .
  also have "\<dots> = d + ?r div p" using assms(1) by simp
  also have "?r div p = 0" using r by (simp add: div_pos_pos_trivial)
  finally show ?thesis using d by simp
qed

lemma readout_count_final:
  assumes "0 < maxPages c" and "0 < pagesPerSuperpage c"
    and "LowPriority True \<notin> set es"
    and "dmaLoop ch c es (initialMembers mem) chan = Inr st"
    and "\<not> readoutRunning st"
  shows "mDmaLoopBreak st \<and> mReadoutCount st = finalReadoutCount c"
proof -
  from assms(4) obtain st0 where s: "dmaLoopStart c (initialMembers mem) chan = Inr st0"
    and e: "execution ch c es st0 = Inr st"
    by (auto simp: dmaLoop_def split: sum.splits)
  have "readoutInv c st0"
    using dmaLoopStart_members [OF s] assms(1,2)
    by (simp add: readoutInv_def initialMembers_def)
  then have i: "readoutInv c st" using execution_inv [OF assms(1,2) _ e assms(3)] by simp
  then have "mReadoutCount st = (maxPages c + pagesPerSuperpage c - 1) div pagesPerSuperpage c
      * pagesPerSuperpage c"
    using assms(5) by (intro least_multiple assms(2)) (simp_all add: readoutInv_def)
  then show ?thesis using i assms(5)
    by (simp add: readoutInv_def finalReadoutCount_def superpagesNeeded_def)
qed

lemma getCounter_succeeds:
  "mCardType c \<noteq> UnknownCard \<Longrightarrow> \<exists>v. getDataGeneratorCounterFromPage c page = Inr v"
  by (cases "mCardType c") (simp_all add: getCounter_cases)

lemma initializeCounter_succeeds:
  "mCardType c \<noteq> UnknownCard \<Longrightarrow> \<exists>st1. initializeCounter c page st = Inr st1"
  using getCounter_succeeds [of c page] by (auto simp: initializeCounter_def)

lemma resyncCounter_succeeds:
  "mCardType c \<noteq> UnknownCard \<Longrightarrow> \<exists>st1. resyncCounter c page b st = Inr st1"
  using getCounter_succeeds [of c page] by (auto simp: resyncCounter_def)

lemma checkErrors_succeeds:
  "mCardType c \<noteq> UnknownCard \<Longrightarrow> generatorPattern c \<noteq> Random \<Longrightarrow>
   \<exists>r. checkErrors c page ps rc g st = Inr r"
  by (cases "mCardType c"; cases "generatorPattern c")
     (simp_all add: checkErrors_def checkErrorsCru_def checkErrorsCrorc_def)

lemma errorCheckPage_succeeds:
  assumes "mCardType c \<noteq> UnknownCard" and "generatorPattern c \<noteq> Random"
  shows "\<exists>st'. errorCheckPage c page ps rc st = Inr st'"
proof -
  obtain st1 where a: "initializeCounter c page st = Inr st1"
    using initializeCounter_succeeds [OF assms(1)] by blast
  obtain r where b: "checkErrors c page ps rc (ucast (mDataGeneratorCounter st1)) st1 = Inr r"
    using checkErrors_succeeds [OF assms] by blast
  obtain h st2 where r: "r = (h, st2)" by (cases r)
  obtain st3 where d: "resyncCounter c page h st2 = Inr st3"
    using resyncCounter_succeeds [OF assms(1)] by blast
  show ?thesis using a b r d by (simp add: errorCheckPage_def)
qed

lemma readoutPage_succeeds:
  assumes "verifiable c"
  shows "\<exists>st'. readoutPage c a ps rc st = Inr st'"
proof (cases "noErrorCheck c")
  case True
  then show ?thesis by (simp add: readoutPage_def Let_def)
next
  case False
  then obtain st1 where "errorCheckPage c (pageAt (memory st) a) ps rc st = Inr st1"
    using assms errorCheckPage_succeeds unfolding verifiable_def by blast
  then show ?thesis using False by (simp add: readoutPage_def Let_def)
qed

lemma readPages_succeeds:
  "verifiable c \<Longrightarrow> \<exists>st'. readPages c off pages i st = Inr st'"
proof (induction c off pages i st rule: readPages.induct)
  case (1 c off pages i st)
  show ?case
  proof (cases "int i < pages")
    case False
    then show ?thesis by (subst readPages.simps) simp
  next
    case True
    let ?st1 = "st\<lparr>mReadoutCount := mReadoutCount st + 1\<rparr>"
    obtain st2 where r: "readoutPage c (mBufferBaseAddress c + off + i * mPageSize c)
        (mPageSize c) (mReadoutCount st) ?st1 = Inr st2"
      using readoutPage_succeeds [OF "1.prems"] by blast
    obtain st' where "readPages c off pages (i + 1) st2 = Inr st'"
      using "1.IH" [OF True refl refl r "1.prems"] by blast
    then show ?thesis using True r by (subst readPages.simps) (simp add: Let_def)
  qed
qed

lemma fillFreeQueue_ok:
  "length (records q) + length js < qsize q \<Longrightarrow>
   fillFreeQueue c js q = Inr (q\<lparr>records := records q @ map (indexToOffset c) js\<rparr>)"
proof (induction js arbitrary: q)
  case Nil
  then show ?case by simp
next
  case (Cons i js)
  let ?q' = "q\<lparr>records := records q @ [indexToOffset c i]\<rparr>"
  have w: "queueWrite q (indexToOffset c i) = Some ?q'"
    using Cons.prems by (simp add: queueWrite_def)
  have "fillFreeQueue c js ?q' = Inr (?q'\<lparr>records := records ?q' @ map (indexToOffset c) js\<rparr>)"
    using Cons.prems by (intro Cons.IH) simp
  then show ?case using w by simp
qed

lemma pages_positive_sizes:
  assumes "0 < pagesPerSuperpage c"
  shows "mSuperpageSize c \<noteq> 0 \<and> mPageSize c \<noteq> 0"
proof -
  have "mSuperpageSize c div mPageSize c \<noteq> 0"
  proof
    assume "mSuperpageSize c div mPageSize c = 0"
    then have "pagesPerSuperpage c = 0" by (simp add: pagesPerSuperpage_def toInt_def)
    then show False using assms by simp
  qed
  then show ?thesis by (auto intro: ccontr)
qed

lemma dmaLoopStart_roundInv:
  assumes "0 < pagesPerSuperpage c" and "1 \<le> maxSuperpages c"
    and "1 \<le> slots chan" and "superpages chan = []"
  shows "\<exists>st. dmaLoopStart c (initialMembers mem) chan = Inr st \<and> roundInv c 0 st"
proof -
  let ?M = "nat (maxSuperpages c)"
  have n: "nat (maxSuperpages c + 1) = ?M + 1" using assms(2) by simp
  have f: "fillFreeQueue c [0 ..< ?M] (newQueue (?M + 1)) =
      Inr \<lparr>qsize = ?M + 1, records = map (indexToOffset c) [0 ..< ?M]\<rparr>"
    using fillFreeQueue_ok [of "newQueue (?M + 1)" "[0 ..< ?M]" c]
    by (simp add: newQueue_def)
  show ?thesis
    using pages_positive_sizes [OF assms(1)] assms f
    by (simp add: dmaLoopStart_def n roundInv_def initialMembers_def newQueue_def)
qed

lemma pushFree_sim:
  "pushFreeSuperpages simChannel c st =
     st\<lparr>freeQueue := (freeQueue st)\<lparr>records :=
            drop (min (slots (mChannel st) - length (superpages (mChannel st)))
                      (length (records (freeQueue st))))
                 (records (freeQueue st))\<rparr>,
        mChannel := (mChannel st)\<lparr>superpages :=
            superpages (mChannel st) @
            map (filledSuperpage c)
              (take (min (slots (mChannel st) - length (superpages (mChannel st)))
                         (length (records (freeQueue st))))
                    (records (freeQueue st)))\<rparr>\<rparr>"
proof (induction n \<equiv> "length (records (freeQueue st))" arbitrary: st)
  case 0
  then have "pushFreeSuperpages simChannel c st = st"
    by (subst pushFreeSuperpages.simps) (simp add: queueRead_def)
  then show ?case using 0 by simp
next
  case (Suc n)
  then obtain off rest where recs: "records (freeQueue st) = off # rest"
    by (cases "records (freeQueue st)") simp_all
  show ?case
  proof (cases "slots (mChannel st) - length (superpages (mChannel st)) = 0")
    case True
    then have "pushFreeSuperpages simChannel c st = st"
      by (subst pushFreeSuperpages.simps) (simp add: simChannel_def)
    then show ?thesis using True by simp
  next
    case False
    let ?st2 = "st\<lparr>freeQueue := (freeQueue st)\<lparr>records := rest\<rparr>,
       mChannel := (mChannel st)\<lparr>superpages :=
          superpages (mChannel st) @ [filledSuperpage c off]\<rparr>\<rparr>"
    have u: "pushFreeSuperpages simChannel c st = pushFreeSuperpages simChannel c ?st2"
      using False recs
      by (subst pushFreeSuperpages.simps)
         (simp add: simChannel_def queueRead_def filledSuperpage_def)
    have n: "n = length (records (freeQueue ?st2))" using Suc.hyps(2) recs by simp
    obtain a where a: "slots (mChannel st) - length (superpages (mChannel st)) = Suc a"
      using False by (cases "slots (mChannel st) - length (superpages (mChannel st))") simp_all
    then have a': "slots (mChannel st) - Suc (length (superpages (mChannel st))) = a" by simp
    show ?thesis
      unfolding u Suc.hyps(1) [OF n]
      by (simp add: recs a a')
  qed
qed

lemma offset_filled: "map offset (map (filledSuperpage c) xs) = xs"
  by (induction xs) (simp_all add: filledSuperpage_def)

lemma isFilled_filled: "isFilled (filledSuperpage c off)"
  by (simp add: isFilled_def filledSuperpage_def)

lemma shared_offsets:
  assumes "mset recs + mset (map offset sps) = A"
    and "sps @ map (filledSuperpage c) (take k recs) = h # t"
  shows "mset (drop k recs) + mset (map offset t) + {#offset h#} = A"
proof -
  have "map offset (h # t) = map offset sps @ take k recs"
    unfolding assms(2) [symmetric] by (simp only: map_append offset_filled)
  then have "mset (map offset t) + {#offset h#} = mset (map offset sps) + mset (take k recs)"
    by (metis add_mset_add_single list.simps(9) mset.simps(2) mset_append)
  moreover have "mset (drop k recs) + mset (take k recs) = mset recs"
    by (metis add.commute append_take_drop_id mset_append)
  ultimately show ?thesis using assms(1) by (metis add.assoc add.commute)
qed

lemma push_round:
  assumes inv: "roundInv c j st"
    and lt: "int j * pagesPerSuperpage c < maxPages c"
    and M: "1 \<le> maxSuperpages c"
  shows "\<exists>off. handedInv c j off (pushIteration simChannel c st)"
proof -
  let ?M = "nat (maxSuperpages c)"
  define recs where "recs = records (freeQueue st)"
  define sps where "sps = superpages (mChannel st)"
  define k where "k = min (slots (mChannel st) - length sps) (length recs)"
  define sps' where "sps' = sps @ map (filledSuperpage c) (take k recs)"
  let ?mid = "st\<lparr>freeQueue := (freeQueue st)\<lparr>records := drop k recs\<rparr>,
                  mChannel := (mChannel st)\<lparr>superpages := sps'\<rparr>\<rparr>"
  have flags: "pushRunning st" "readoutRunning st" "\<not> mDmaLoopBreak st"
    and counts: "mPushCount st = int j * pagesPerSuperpage c"
      "mReadoutCount st = int j * pagesPerSuperpage c"
    and rq: "readoutQueue st = \<lparr>qsize = ?M + 1, records = []\<rparr>"
    and fq: "qsize (freeQueue st) = ?M + 1"
    and sl: "1 \<le> slots (mChannel st)"
    and fl: "\<forall>sp \<in> set sps. isFilled sp"
    and ms: "mset recs + mset (map offset sps) = mset (map (indexToOffset c) [0 ..< ?M])"
    using inv by (simp_all add: roundInv_def recs_def sps_def)
  have fillid: "st\<lparr>mChannel := fillSuperpages simChannel (mChannel st)\<rparr> = st"
    by (simp add: simChannel_def)
  have mid: "pushFreeSuperpages simChannel c st = ?mid"
    unfolding sps'_def k_def recs_def sps_def by (rule pushFree_sim)
  have pI: "pushIteration simChannel c st = checkFilledSuperpages simChannel c ?mid"
    using flags counts lt by (simp add: pushIteration_def fillid mid)
  have "size (mset recs + mset (map offset sps)) = size (mset (map (indexToOffset c) [0 ..< ?M]))"
    using ms by simp
  then have len: "length recs + length sps = ?M" by simp
  have ne: "sps' \<noteq> []"
  proof (cases "sps = []")
    case True
    then have "length recs = ?M" using len by simp
    then have r1: "1 \<le> length recs" using M by simp
    then have "1 \<le> k" using sl True by (simp add: k_def sps_def)
    then have "take k recs \<noteq> []" using r1 by (cases recs) auto
    then show ?thesis by (simp add: sps'_def)
  next
    case False
    then show ?thesis by (simp add: sps'_def)
  qed
  then obtain h t where ht: "sps' = h # t" by (cases sps') simp_all
  have allf: "\<forall>sp \<in> set sps'. isFilled sp" using fl by (auto simp: isFilled_filled sps'_def)
  then have hf: "isFilled h" and tf: "\<forall>sp \<in> set t. isFilled sp" unfolding ht by simp_all
  have w: "queueWrite \<lparr>qsize = ?M + 1, records = []\<rparr> (offset h) =
      Some \<lparr>qsize = ?M + 1, records = [offset h]\<rparr>"
    using M by (simp add: queueWrite_def)
  have res: "checkFilledSuperpages simChannel c ?mid =
      ?mid\<lparr>readoutQueue := \<lparr>qsize = ?M + 1, records = [offset h]\<rparr>,
           mPushCount := mPushCount st + pagesPerSuperpage c,
           mChannel := (mChannel st)\<lparr>superpages := t\<rparr>\<rparr>"
    using hf w by (simp add: checkFilledSuperpages_def simChannel_def ht rq getOffset_def)
  have sh: "mset (drop k recs) + mset (map offset t) + {#offset h#} =
      mset (map (indexToOffset c) [0 ..< ?M])"
    using ms ht unfolding sps'_def by (rule shared_offsets)
  have "handedInv c j (offset h) (pushIteration simChannel c st)"
    unfolding pI res using flags counts fq sl tf sh
    by (simp add: handedInv_def algebra_simps)
  then show ?thesis by blast
qed

lemma readout_round:
  assumes h: "handedInv c j off st"
    and lt: "int j * pagesPerSuperpage c < maxPages c"
    and v: "verifiable c" and p: "0 < pagesPerSuperpage c"
  shows "\<exists>st'. readoutIteration c st = Inr st' \<and> roundInv c (Suc j) st'"
proof -
  let ?M = "nat (maxSuperpages c)"
  let ?empty = "\<lparr>qsize = ?M + 1, records = []\<rparr>"
  have flags: "pushRunning st" "readoutRunning st" "\<not> mDmaLoopBreak st"
    and counts: "mPushCount st = int (Suc j) * pagesPerSuperpage c"
      "mReadoutCount st = int j * pagesPerSuperpage c"
    and rq: "readoutQueue st = \<lparr>qsize = ?M + 1, records = [off]\<rparr>"
    and fq: "qsize (freeQueue st) = ?M + 1"
    and sl: "1 \<le> slots (mChannel st)"
    and fl: "\<forall>sp \<in> set (superpages (mChannel st)). isFilled sp"
    and ms: "mset (records (freeQueue st)) + mset (map offset (superpages (mChannel st)))
        + {#off#} = mset (map (indexToOffset c) [0 ..< ?M])"
    using h by (simp_all add: handedInv_def)
  let ?st0 = "st\<lparr>readoutQueue := ?empty\<rparr>"
  have qr: "queueRead (readoutQueue st) = Some (off, ?empty)"
    by (simp add: queueRead_def rq)
  obtain st1 where r: "readPages c off (pagesPerSuperpage c) 0 ?st0 = Inr st1"
    using readPages_succeeds [OF v] by blast
  note R = readPages_effect [OF r]
  have more: "Members.more st1 = Members.more ?st0" using R by simp
  note F = more_fields [OF more]
  have "size (mset (records (freeQueue st)) + mset (map offset (superpages (mChannel st)))
        + {#off#}) = size (mset (map (indexToOffset c) [0 ..< ?M]))"
    using ms by simp
  then have len: "length (records (freeQueue st)) + length (superpages (mChannel st)) + 1 = ?M"
    by simp
  let ?fq = "(freeQueue st)\<lparr>records := records (freeQueue st) @ [off]\<rparr>"
  have w: "queueWrite (freeQueue st1) off = Some ?fq"
    using len fq F(2) by (simp add: queueWrite_def)
  have res: "readoutIteration c st = Inr (st1\<lparr>freeQueue := ?fq\<rparr>)"
    using flags counts lt qr r w by (simp add: readoutIteration_def)
  have "roundInv c (Suc j) (st1\<lparr>freeQueue := ?fq\<rparr>)"
    using R F flags counts fq sl fl ms p
    by (simp add: roundInv_def algebra_simps)
  then show ?thesis using res by blast
qed

lemma round_step:
  assumes "roundInv c j st" and "int j * pagesPerSuperpage c < maxPages c"
    and "1 \<le> maxSuperpages c" and "verifiable c" and "0 < pagesPerSuperpage c"
  shows "\<exists>st'. execution simChannel c [PushPoll, Readout] st = Inr st' \<and> roundInv c (Suc j) st'"
proof -
  obtain off where "handedInv c j off (pushIteration simChannel c st)"
    using push_round [OF assms(1,2,3)] by blast
  then obtain st' where "readoutIteration c (pushIteration simChannel c st) = Inr st'"
    and "roundInv c (Suc j) st'"
    using readout_round [OF _ assms(2,4,5)] by blast
  then show ?thesis by simp
qed

lemma last_round:
  assumes "roundInv c j st" and "maxPages c \<le> int j * pagesPerSuperpage c" and "0 < maxPages c"
  shows "execution simChannel c [PushPoll, Readout] st =
     Inr (st\<lparr>pushRunning := False, mDmaLoopBreak := True, readoutRunning := False\<rparr>)"
  using assms
  by (simp add: roundInv_def pushIteration_def readoutIteration_def mInfinitePages_def)

lemma unwinding_append:
  "unwinding ch c (es @ es') r = unwinding ch c es' (unwinding ch c es r)"
  by (induction es arbitrary: r) simp_all

lemma execution_append:
  "execution ch c (es @ es') st =
     (case execution ch c es st of
        Inl r \<Rightarrow> Inl (unwinding ch c es' r)
      | Inr st1 \<Rightarrow> execution ch c es' st1)"
  by (induction es arbitrary: st) (auto simp: unwinding_append split: sum.splits)

lemma rounds_snoc: "rounds (Suc k) = rounds k @ [PushPoll, Readout]"
  by (induction k) simp_all

lemma needed_bounds:
  assumes "0 < maxPages c" and "0 < pagesPerSuperpage c"
  shows "maxPages c \<le> superpagesNeeded c * pagesPerSuperpage c"
    and "0 \<le> superpagesNeeded c"
    and "int j < superpagesNeeded c \<Longrightarrow> int j * pagesPerSuperpage c < maxPages c"
    and "superpagesNeeded c * pagesPerSuperpage c < maxPages c + pagesPerSuperpage c"
proof -
  let ?n = "maxPages c" and ?p = "pagesPerSuperpage c"
  define d where "d = (?n + ?p - 1) div ?p"
  define r where "r = (?n + ?p - 1) mod ?p"
  have e: "d * ?p = ?n + ?p - 1 - r"
    unfolding d_def r_def by (simp add: minus_mod_eq_div_mult)
  have m: "0 \<le> r" "r < ?p" unfolding r_def using assms(2) by simp_all
  have s: "superpagesNeeded c = d" by (simp add: superpagesNeeded_def d_def)
  show "?n \<le> superpagesNeeded c * ?p" unfolding s using e m by linarith
  show "superpagesNeeded c * ?p < ?n + ?p" unfolding s using e m by linarith
  show "0 \<le> superpagesNeeded c" unfolding superpagesNeeded_def
    using assms by (simp add: pos_imp_zdiv_nonneg_iff)
  assume "int j < superpagesNeeded c"
  then have "int j + 1 \<le> d" by (simp add: s)
  then have "(int j + 1) * ?p \<le> d * ?p" using assms(2) by (simp only: mult_right_mono)
  then have "int j * ?p + ?p \<le> d * ?p" by (simp add: algebra_simps)
  then show "int j * ?p < ?n" using e m by linarith
qed

lemma rounds_productive:
  assumes "1 \<le> maxSuperpages c" and "verifiable c" and "0 < pagesPerSuperpage c"
    and "0 < maxPages c"
  shows "roundInv c j st \<Longrightarrow> int (j + k) \<le> superpagesNeeded c \<Longrightarrow>
     \<exists>st'. execution simChannel c (rounds k) st = Inr st' \<and> roundInv c (j + k) st'"
proof (induction k arbitrary: j st)
  case 0
  then show ?case by simp
next
  case (Suc k)
  have "int j < superpagesNeeded c" using Suc.prems(2) by simp
  then have lt: "int j * pagesPerSuperpage c < maxPages c"
    using needed_bounds(3) [OF assms(4,3)] by simp
  obtain st1 where a: "execution simChannel c [PushPoll, Readout] st = Inr st1"
    and b: "roundInv c (Suc j) st1"
    using round_step [OF Suc.prems(1) lt assms(1,2,3)] by blast
  obtain st' where d: "execution simChannel c (rounds k) st1 = Inr st'"
    and e: "roundInv c (Suc j + k) st'"
    using Suc.IH [OF b] Suc.prems(2) by auto
  have "execution simChannel c (rounds (Suc k)) st = execution simChannel c (rounds k) st1"
    using a by (auto split: sum.splits)
  then show ?case using d e by simp
qed


section \<open>An exception in flight\<close>

text \<open>
  Where \<^verbatim>\<open>readoutPage\<close> raises: at the seeding of the counter, or else in \<^verbatim>\<open>checkErrors\<close>
  on the seeded state, whose exceptions do not depend on the members.
\<close>

lemma checkErrors_raises:
  "checkErrors c page ps rc k st = Inl e \<Longrightarrow> checkErrors c page ps rc k st' = Inl e"
  by (auto simp: checkErrors_def checkErrorsCru_def checkErrorsCrorc_def
      split: CardType.splits GeneratorPattern.splits)

lemma readoutPage_raises:
  assumes "readoutPage c a ps rc st = Inl e"
  shows "\<not> noErrorCheck c \<and>
         (initializeCounter c (pageAt (memory st) a) st = Inl e \<and> readoutPageRaised c a st = st \<or>
          (\<exists>st1. initializeCounter c (pageAt (memory st) a) st = Inr st1 \<and>
             readoutPageRaised c a st = st1 \<and>
             checkErrors c (pageAt (memory st) a) ps rc (ucast (mDataGeneratorCounter st1)) st1
               = Inl e))"
proof -
  let ?page = "pageAt (memory st) a"
  have n: "\<not> noErrorCheck c"
    using assms by (auto simp: readoutPage_def Let_def split: if_splits)
  then have e: "errorCheckPage c ?page ps rc st = Inl e"
    using assms by (auto simp: readoutPage_def Let_def split: sum.splits)
  show ?thesis
  proof (cases "initializeCounter c ?page st")
    case (Inl x)
    then show ?thesis using n e by (simp add: errorCheckPage_def readoutPageRaised_def)
  next
    case (Inr st1)
    let ?k = "checkErrors c ?page ps rc (ucast (mDataGeneratorCounter st1)) st1"
    have "?k = Inl e"
    proof (cases ?k)
      case (Inl x)
      then show ?thesis using e Inr by (simp add: errorCheckPage_def)
    next
      case (Inr r)
      then have "mCardType c \<noteq> UnknownCard" by (rule checkErrors_card)
      then obtain v where "getDataGeneratorCounterFromPage c ?page = Inr v"
        by (cases "mCardType c") (simp_all add: getCounter_cases)
      then have "\<exists>s. resyncCounter c ?page (fst r) (snd r) = Inr s"
        by (simp add: resyncCounter_def)
      then show ?thesis
        using e \<open>initializeCounter c ?page st = Inr st1\<close> Inr
        by (cases r) (auto simp: errorCheckPage_def)
    qed
    then show ?thesis using n Inr by (simp add: readoutPageRaised_def)
  qed
qed

lemma joined_running: "joined err True st = Blocked err True st"
  by (simp add: joined_def)

lemma unwind_waits:
  assumes "\<not> mDmaLoopBreak st" and "e \<noteq> LowPriority True"
  shows "\<exists>st'. unwind ch c e (Blocked err True st) = Blocked err True st' \<and> \<not> mDmaLoopBreak st'"
proof (cases e)
  case PushPoll
  then show ?thesis using assms pushIteration_frame [of ch c st] by (simp add: joined_def)
next
  case Readout
  then show ?thesis using assms by simp
next
  case (LowPriority s)
  then show ?thesis using assms by simp
next
  case (Hardware hw dma)
  then show ?thesis using assms by simp
qed

lemma unwinding_waits:
  "\<not> mDmaLoopBreak st \<Longrightarrow> LowPriority True \<notin> set es \<Longrightarrow>
   \<exists>st'. unwinding ch c es (Blocked err True st) = Blocked err True st' \<and> \<not> mDmaLoopBreak st'"
proof (induction es arbitrary: st)
  case Nil
  then show ?case by simp
next
  case (Cons e es)
  then have "e \<noteq> LowPriority True" by auto
  from unwind_waits [OF Cons.prems(1) this] obtain st1 where
    u: "unwind ch c e (Blocked err True st) = Blocked err True st1" and b: "\<not> mDmaLoopBreak st1"
    by blast
  have "LowPriority True \<notin> set es" using Cons.prems(2) by simp
  from Cons.IH [OF b this] show ?case using u by simp
qed

lemma interrupt_propagates:
  "\<not> mDmaLoopBreak st \<Longrightarrow>
   unwinding ch c [LowPriority True, LowPriority b, PushPoll] (Blocked err True st) = Propagated err"
  by (simp add: joined_def pushIteration_def)

lemma stale_pushed:
  "dmaLoop simChannel smallConfig [PushPoll] (initialMembers (\<lambda>a. 0)) staleCard = Inr returnBlocked"
  by (simp add: loop_eval staleCard_def returnBlocked_def smallStart_def)

lemma stale_run:
  "(case execution simChannel smallConfig (Readout # rounds 3) returnBlocked of
      Inl (Blocked e lp s) \<Rightarrow>
        Some (e, lp, pushRunning s, readoutRunning s, mDmaLoopBreak s, mPushCount s,
              mReadoutCount s, records (freeQueue s), records (readoutQueue s))
    | Inl (Propagated e) \<Rightarrow> None
    | Inr s \<Rightarrow> None)
   = Some (Exception ''Something went horribly wrong'' None, True, False, False, False, 4, 2,
           [1048576], [0])"
  by (simp add: loop_eval returnBlocked_def smallStart_def joined_def)

lemma readoutPageRaised_effect: "pageEffect c st (readoutPageRaised c a st)"
  by (auto simp: readoutPageRaised_def pageEffect_refl split: sum.splits
      dest: initializeCounter_effect)

lemma readPages_raised:
  "readPages c off pages i st = Inl (e, s) \<Longrightarrow>
   mPushCount s = mPushCount st \<and> mDmaLoopBreak s = mDmaLoopBreak st \<and>
   mErrorCount st \<le> mErrorCount s \<and> mReadoutCount st \<le> mReadoutCount s"
proof (induction c off pages i st rule: readPages.induct)
  case (1 c off pages i st)
  show ?case
  proof (cases "int i < pages")
    case False
    then show ?thesis using "1.prems" by (subst (asm) readPages.simps) simp
  next
    case True
    let ?st1 = "st\<lparr>mReadoutCount := mReadoutCount st + 1\<rparr>"
    let ?a = "mBufferBaseAddress c + off + i * mPageSize c"
    let ?r = "readoutPage c ?a (mPageSize c) (mReadoutCount st) ?st1"
    show ?thesis
    proof (cases ?r)
      case (Inl x)
      then have "s = readoutPageRaised c ?a ?st1"
        using "1.prems" True by (subst (asm) readPages.simps) (simp add: Let_def)
      then show ?thesis
        using readoutPageRaised_effect [of c ?st1 ?a] by (simp add: pageEffect_def)
    next
      case (Inr st2)
      then have rest: "readPages c off pages (i + 1) st2 = Inl (e, s)"
        using "1.prems" True by (subst (asm) readPages.simps) (simp add: Let_def)
      have p: "pageEffect c ?st1 st2" using Inr by (rule readoutPage_effect)
      note ih = "1.IH" [OF True refl refl Inr rest]
      show ?thesis using p ih by (simp add: pageEffect_def)
    qed
  qed
qed

lemma readoutIteration_raised:
  assumes "readoutIteration c st = Inl (e, s)"
  shows "mPushCount s = mPushCount st \<and> \<not> mDmaLoopBreak s \<and>
         mErrorCount st \<le> mErrorCount s \<and> mReadoutCount st \<le> mReadoutCount s"
proof -
  from assms obtain off q where b: "\<not> mDmaLoopBreak st"
    and q: "queueRead (readoutQueue st) = Some (off, q)"
    and r: "readPages c off (pagesPerSuperpage c) 0 (st\<lparr>readoutQueue := q\<rparr>) = Inl (e, s) \<or>
            readPages c off (pagesPerSuperpage c) 0 (st\<lparr>readoutQueue := q\<rparr>) = Inr s"
    by (auto simp: readoutIteration_def split: if_splits option.splits sum.splits)
  from r show ?thesis
  proof
    assume "readPages c off (pagesPerSuperpage c) 0 (st\<lparr>readoutQueue := q\<rparr>) = Inl (e, s)"
    from readPages_raised [OF this] show ?thesis using b by simp
  next
    assume "readPages c off (pagesPerSuperpage c) 0 (st\<lparr>readoutQueue := q\<rparr>) = Inr s"
    from readPages_effect [OF this] show ?thesis using b by simp
  qed
qed

lemma unwinding_propagated: "unwinding ch c es (Propagated e) = Propagated e"
  by (induction es) simp_all

lemma unwind_effect:
  assumes "unwind ch c ev (Blocked e lp st) = Blocked e' lp' st'"
  shows "(0 \<le> pagesPerSuperpage c \<longrightarrow> mPushCount st \<le> mPushCount st') \<and>
         mReadoutCount st' = mReadoutCount st \<and> mErrorCount st' = mErrorCount st"
proof (cases ev)
  case PushPoll
  then have "st' = pushIteration ch c st"
    using assms by (simp add: joined_def split: if_splits)
  then show ?thesis using pushIteration_frame [of ch c st] by auto
next
  case Readout
  then show ?thesis using assms by simp
next
  case (LowPriority s)
  then show ?thesis using assms by (auto simp: joined_def split: if_splits)
next
  case (Hardware hw dma)
  then show ?thesis using assms by auto
qed

lemma unwinding_effect:
  "unwinding ch c es (Blocked e lp st) = Blocked e' lp' st' \<Longrightarrow>
   (0 \<le> pagesPerSuperpage c \<longrightarrow> mPushCount st \<le> mPushCount st') \<and>
   mReadoutCount st' = mReadoutCount st \<and> mErrorCount st' = mErrorCount st"
proof (induction es arbitrary: lp st)
  case Nil
  then show ?case by simp
next
  case (Cons ev es)
  show ?case
  proof (cases "unwind ch c ev (Blocked e lp st)")
    case (Propagated x)
    then show ?thesis using Cons.prems by (simp add: unwinding_propagated)
  next
    case (Blocked e1 lp1 st1)
    have e1: "e1 = e" using Blocked
      by (cases ev) (auto simp: joined_def split: if_splits)
    note u = unwind_effect [OF Blocked]
    have "unwinding ch c es (Blocked e lp1 st1) = Blocked e' lp' st'"
      using Cons.prems Blocked e1 by simp
    from Cons.IH [OF this] u show ?thesis by auto
  qed
qed

lemma execution_raised_effect:
  "execution ch c es st = Inl (Blocked e lp s) \<Longrightarrow>
   (0 \<le> pagesPerSuperpage c \<longrightarrow> mPushCount st \<le> mPushCount s) \<and>
   mReadoutCount st \<le> mReadoutCount s \<and> mErrorCount st \<le> mErrorCount s"
proof (induction es arbitrary: st)
  case Nil
  then show ?case by simp
next
  case (Cons ev es)
  show ?case
  proof (cases "step ch c ev st")
    case (Inr st1)
    then have "execution ch c es st1 = Inl (Blocked e lp s)" using Cons.prems by simp
    from Cons.IH [OF this] step_effect [OF Inr] show ?thesis by auto
  next
    case (Inl x)
    obtain err st1 where x: "x = (err, st1)" by (cases x)
    have "ev = Readout" using Inl by (cases ev) simp_all
    then have "readoutIteration c st = Inl (err, st1)" using Inl x by simp
    note r = readoutIteration_raised [OF this]
    have "unwinding ch c es (Blocked err True (st1\<lparr>readoutRunning := False\<rparr>)) = Blocked e lp s"
      using Cons.prems Inl x by (simp add: joined_def)
    from unwinding_effect [OF this] r show ?thesis by auto
  qed
qed

section \<open>Claims on the verifier\<close>

text \<open>
  C3, as amended. Family A (CRU), Incremental pattern. If every word at a stride index
  \<open>i\<close> (a multiple of 8 below the page's word count) equals \<open>counter * 256 + i / 8\<close>,
  the verification reports no mismatch and leaves the state, the error count included, as
  it was. If the word at a stride index \<open>j\<close> differs and the stride words before it are
  right, the verification reports a mismatch and the error count grows by exactly one;
  when the run is verbose and the incremented count is below the cap, exactly one line is
  logged, with the index \<open>j\<close>, the expected value \<open>counter * 256 + j / 8\<close> and the value
  found, and otherwise the log is left as it was. Nothing is assumed of the words after
  \<open>j\<close>, which are not scanned.
\<close>

theorem checkErrorsCru_incremental:
  assumes "generatorPattern c = Incremental"
  shows "((\<forall>i < pageSize32 pageSize. i mod 8 = 0 \<longrightarrow> page i = counter * 256 + of_nat i div 8) \<longrightarrow>
            checkErrorsCru c page pageSize ev counter st = Inr (False, st))
       \<and> (\<forall>j. j < pageSize32 pageSize \<and> j mod 8 = 0 \<and>
              (\<forall>i < j. i mod 8 = 0 \<longrightarrow> page i = counter * 256 + of_nat i div 8) \<and>
              page j \<noteq> counter * 256 + of_nat j div 8 \<longrightarrow>
            checkErrorsCru c page pageSize ev counter st =
              Inr (True, st\<lparr>mErrorCount := mErrorCount st + 1,
                           mErrorStream :=
                             (if isVerbose c \<and> mErrorCount st + 1 < 1000
                              then mErrorStream st @
                                [\<lparr>event = ev, index = j, cnt = counter,
                                  exp = counter * 256 + of_nat j div 8, val = page j\<rparr>]
                              else mErrorStream st)\<rparr>))"
proof (intro conjI impI allI)
  assume clean: "\<forall>i < pageSize32 pageSize. i mod 8 = 0 \<longrightarrow> page i = counter * 256 + of_nat i div 8"
  have "checkCru c (\<lambda>i. counter * 256 + i div 8) page (pageSize32 pageSize) ev counter 0 st
          = (False, st)"
    by (rule checkCru_clean) (use clean in simp)
  then show "checkErrorsCru c page pageSize ev counter st = Inr (False, st)"
    using assms by (simp add: checkErrorsCru_def)
next
  fix j
  assume h: "j < pageSize32 pageSize \<and> j mod 8 = 0 \<and>
              (\<forall>i < j. i mod 8 = 0 \<longrightarrow> page i = counter * 256 + of_nat i div 8) \<and>
              page j \<noteq> counter * 256 + of_nat j div 8"
  then obtain m where m: "j = 0 + 8 * m" by (auto simp: mod_eq_0_iff_dvd)
  have "checkCru c (\<lambda>i. counter * 256 + i div 8) page (pageSize32 pageSize) ev counter 0 st
          = (True, reportErrorCru c ev (0 + 8 * m) counter
               (counter * 256 + of_nat (0 + 8 * m) div 8) (page (0 + 8 * m)) st)"
    by (rule checkCru_mismatch) (use h m in auto)
  then show "checkErrorsCru c page pageSize ev counter st =
              Inr (True, st\<lparr>mErrorCount := mErrorCount st + 1,
                           mErrorStream :=
                             (if isVerbose c \<and> mErrorCount st + 1 < 1000
                              then mErrorStream st @
                                [\<lparr>event = ev, index = j, cnt = counter,
                                  exp = counter * 256 + of_nat j div 8, val = page j\<rparr>]
                              else mErrorStream st)\<rparr>)"
    using assms m by (simp add: checkErrorsCru_def reportErrorCru_def MAX_RECORDED_ERRORS_def Let_def)
qed

theorem checkErrorsCru_incremental_witness:
  "generatorPattern exampleConfig = Incremental
   \<and> checkErrorsCru exampleConfig (cruPage 5) 64 7 5 (initialMembers (\<lambda>a. 0))
       = Inr (False, initialMembers (\<lambda>a. 0))
   \<and> checkErrorsCru exampleConfig ((cruPage 5)(8 := 0xdead)) 64 7 5 (initialMembers (\<lambda>a. 0))
       = Inr (True, (initialMembers (\<lambda>a. 0))\<lparr>mErrorCount := 1,
            mErrorStream := [\<lparr>event = 7, index = 8, cnt = 5, exp = 0x501, val = 0xdead\<rparr>]\<rparr>)"
proof -
  have p: "generatorPattern exampleConfig = Incremental" by (simp add: exampleConfig_def)
  have clean: "\<forall>i < pageSize32 64. i mod 8 = 0 \<longrightarrow> cruPage 5 i = 5 * 256 + of_nat i div 8"
    by (simp add: cruPage_def)
  have flipped: "(8::nat) < pageSize32 64 \<and> (8::nat) mod 8 = 0 \<and>
      (\<forall>i < 8. i mod 8 = 0 \<longrightarrow> ((cruPage 5)(8 := 0xdead)) i = 5 * 256 + of_nat i div 8) \<and>
      ((cruPage 5)(8 := 0xdead)) 8 \<noteq> 5 * 256 + of_nat 8 div 8"
    by (simp add: cruPage_def pageSize32_def)
  note a = checkErrorsCru_incremental [OF p, of 64 "cruPage 5" 5 7 "initialMembers (\<lambda>a. 0)",
      THEN conjunct1, THEN mp, OF clean]
  note b = checkErrorsCru_incremental [OF p, of 64 "(cruPage 5)(8 := 0xdead)" 5 7 "initialMembers (\<lambda>a. 0)",
      THEN conjunct2, THEN spec, of 8, THEN mp, OF flipped]
  have c: "isVerbose exampleConfig" by (simp add: exampleConfig_def)
  have d: "mErrorCount (initialMembers (\<lambda>a. 0)) = 0" "mErrorStream (initialMembers (\<lambda>a. 0)) = []"
    by (simp_all add: initialMembers_def)
  show ?thesis using p a b by (simp add: c d)
qed

text \<open>
  C3 as stated fails. In a run that is not verbose (the default), flipping the stride word
  at index 8 of a clean page makes the verification report a mismatch and count it, but
  no mismatch is recorded: the error log stays empty, so neither the index nor the
  expected and actual values are kept.
\<close>

theorem checkErrorsCru_incremental_counterexample:
  "\<not> isVerbose (exampleConfig\<lparr>isVerbose := False\<rparr>) \<and>
   generatorPattern (exampleConfig\<lparr>isVerbose := False\<rparr>) = Incremental \<and>
   checkErrorsCru (exampleConfig\<lparr>isVerbose := False\<rparr>) (cruPage 5) 64 7 5
       (initialMembers (\<lambda>a. 0))
     = Inr (False, initialMembers (\<lambda>a. 0)) \<and>
   checkErrorsCru (exampleConfig\<lparr>isVerbose := False\<rparr>) ((cruPage 5)(8 := 0xdead)) 64 7 5
       (initialMembers (\<lambda>a. 0))
     = Inr (True, (initialMembers (\<lambda>a. 0))\<lparr>mErrorCount := 1, mErrorStream := []\<rparr>)"
  by (simp add: checkErrorsCru_def checkCru.simps pageSize32_def reportErrorCru_def
      MAX_RECORDED_ERRORS_def PATTERN_STRIDE_def Let_def exampleConfig_def cruPage_def
      initialMembers_def)









text \<open>
  C8. If the configured pattern is none of Incremental, Alternating and Constant (Random,
  that is), both checkers return the exception "Unsupported pattern ..." that names the
  pattern, whatever the page; with error checking enabled, so does the readout of every
  page on either card family.
\<close>

theorem unsupported_pattern:
  assumes "generatorPattern c \<notin> {Incremental, Alternating, Constant}"
  shows "checkErrorsCru c page ps ev counter st =
           Inl (Exception ''Unsupported pattern for CRU error checking''
                  (Some (generatorPattern c)))
       \<and> checkErrorsCrorc c page ps ev counter st =
           Inl (Exception ''Unsupported pattern for C-RORC error checking''
                  (Some (generatorPattern c)))
       \<and> (\<not> noErrorCheck c \<and> mCardType c = Cru \<longrightarrow>
            readoutPage c a ps rc st =
              Inl (Exception ''Unsupported pattern for CRU error checking''
                     (Some (generatorPattern c))))
       \<and> (\<not> noErrorCheck c \<and> mCardType c = Crorc \<longrightarrow>
            readoutPage c a ps rc st =
              Inl (Exception ''Unsupported pattern for C-RORC error checking''
                     (Some (generatorPattern c))))"
proof -
  have r: "generatorPattern c = Random" using assms by (cases "generatorPattern c") simp_all
  have cru: "\<And>page ps ev counter. \<And>st :: 'a Members_scheme.
     checkErrorsCru c page ps ev counter st =
       Inl (Exception ''Unsupported pattern for CRU error checking'' (Some (generatorPattern c)))"
    by (simp add: checkErrorsCru_def r)
  have crorc: "\<And>page ps ev counter. \<And>st :: 'a Members_scheme.
     checkErrorsCrorc c page ps ev counter st =
       Inl (Exception ''Unsupported pattern for C-RORC error checking'' (Some (generatorPattern c)))"
    by (simp add: checkErrorsCrorc_def r)
  have p1: "\<not> noErrorCheck c \<and> mCardType c = Cru \<longrightarrow>
            readoutPage c a ps rc st =
              Inl (Exception ''Unsupported pattern for CRU error checking''
                     (Some (generatorPattern c)))"
    by (auto simp: readoutPage_def errorCheckPage_def initializeCounter_def checkErrors_def cru
        getDataGeneratorCounterFromPage_def)
  have p2: "\<not> noErrorCheck c \<and> mCardType c = Crorc \<longrightarrow>
            readoutPage c a ps rc st =
              Inl (Exception ''Unsupported pattern for C-RORC error checking''
                     (Some (generatorPattern c)))"
    by (auto simp: readoutPage_def errorCheckPage_def initializeCounter_def checkErrors_def crorc
        getDataGeneratorCounterFromPage_def)
  show ?thesis using cru crorc p1 p2 by simp
qed

theorem unsupported_pattern_witness:
  "generatorPattern (exampleConfig\<lparr>generatorPattern := Random\<rparr>)
      \<notin> {Incremental, Alternating, Constant}
   \<and> checkErrorsCru (exampleConfig\<lparr>generatorPattern := Random\<rparr>) (cruPage 5) 64 7 5
        (initialMembers (\<lambda>a. 0))
       = Inl (Exception ''Unsupported pattern for CRU error checking'' (Some Random))
   \<and> checkErrorsCrorc (exampleConfig\<lparr>generatorPattern := Random\<rparr>) (crorcPage 5) 64 7 5
        (initialMembers (\<lambda>a. 0))
       = Inl (Exception ''Unsupported pattern for C-RORC error checking'' (Some Random))
   \<and> readoutPage (exampleConfig\<lparr>generatorPattern := Random\<rparr>) 0 64 0 (initialMembers (\<lambda>a. 0))
       = Inl (Exception ''Unsupported pattern for CRU error checking'' (Some Random))"
proof -
  let ?c = "exampleConfig\<lparr>generatorPattern := Random\<rparr>"
  have h: "generatorPattern ?c \<notin> {Incremental, Alternating, Constant}" by simp
  have g: "generatorPattern ?c = Random" by simp
  have k: "\<not> noErrorCheck ?c \<and> mCardType ?c = Cru" by (simp add: exampleConfig_def)
  note T = unsupported_pattern [OF h]
  note a = T [where page = "cruPage 5" and ps = 64 and ev = 7 and counter = 5
      and st = "initialMembers (\<lambda>a. 0)", THEN conjunct1]
  note b = T [where page = "crorcPage 5" and ps = 64 and ev = 7 and counter = 5
      and st = "initialMembers (\<lambda>a. 0)", THEN conjunct2, THEN conjunct1]
  note d = T [where a = 0 and ps = 64 and rc = 0
      and st = "initialMembers (\<lambda>a. 0)", THEN conjunct2, THEN conjunct2, THEN conjunct1,
      THEN mp, OF k]
  show ?thesis using h a b d unfolding g by simp
qed

section \<open>Claims on the DMA loop\<close>

lemma run_without_stalls:
  assumes "0 < maxPages c" and "0 < pagesPerSuperpage c"
    and "verifiable c" and "1 \<le> maxSuperpages c"
    and "1 \<le> slots sim" and "superpages sim = []"
  shows "\<exists>st'. dmaLoop simChannel c (rounds (nat (superpagesNeeded c) + 1))
            (initialMembers mem) sim = Inr st' \<and>
          \<not> pushRunning st' \<and> \<not> readoutRunning st' \<and> mDmaLoopBreak st' \<and>
          mReadoutCount st' = finalReadoutCount c \<and>
          records (readoutQueue st') = [] \<and>
          mset (records (freeQueue st')) + mset (map offset (superpages (mChannel st'))) =
            mset (map (indexToOffset c) [0 ..< nat (maxSuperpages c)])"
proof -
  let ?J = "nat (superpagesNeeded c)"
  note B = needed_bounds [OF assms(1,2)]
  have J: "int ?J = superpagesNeeded c" using B(2) by simp
  obtain st0 where s: "dmaLoopStart c (initialMembers mem) sim = Inr st0"
    and i0: "roundInv c 0 st0"
    using dmaLoopStart_roundInv [OF assms(2,4,5,6)] by blast
  obtain st1 where e1: "execution simChannel c (rounds ?J) st0 = Inr st1"
    and i1: "roundInv c ?J st1"
    using rounds_productive [OF assms(4,3,2,1) i0, of ?J] J by auto
  let ?st' = "st1\<lparr>pushRunning := False, mDmaLoopBreak := True, readoutRunning := False\<rparr>"
  have e2: "execution simChannel c [PushPoll, Readout] st1 = Inr ?st'"
    using last_round [OF i1 _ assms(1)] B(1) J by simp
  have "execution simChannel c (rounds (?J + 1)) st0 = Inr ?st'"
    using e1 e2 by (simp only: Suc_eq_plus1 [symmetric] rounds_snoc execution_append sum.case)
  then have d: "dmaLoop simChannel c (rounds (?J + 1)) (initialMembers mem) sim = Inr ?st'"
    by (simp add: dmaLoop_def s)
  have "\<not> pushRunning ?st' \<and> \<not> readoutRunning ?st' \<and> mDmaLoopBreak ?st' \<and>
          mReadoutCount ?st' = finalReadoutCount c \<and>
          records (readoutQueue ?st') = [] \<and>
          mset (records (freeQueue ?st')) + mset (map offset (superpages (mChannel ?st'))) =
            mset (map (indexToOffset c) [0 ..< nat (maxSuperpages c)])"
    using i1 J by (simp add: roundInv_def finalReadoutCount_def)
  then show ?thesis using d by blast
qed


text \<open>
  C1, as amended. Let the page limit \<open>maxPages\<close> and the number of pages per superpage
  be positive. (1) In every execution of \<^verbatim>\<open>dmaLoop\<close> without interrupt, once the readout
  loop has stopped the stop flag is set and the readout count is \<open>finalReadoutCount\<close>:
  the least multiple of the pages per superpage that is not below the limit, which is the
  limit itself exactly when the pages per superpage divide it. (2) With a configuration
  whose verification raises no exception, a buffer of at least one superpage and a card
  that fills every pushed superpage at once, the run in which the push and readout
  threads take turns terminates: after \<open>superpagesNeeded + 1\<close> rounds both loops have
  stopped with the stop flag set and that readout count, the readout queue is empty, and
  every superpage offset is either on the free queue or still held by the card.
\<close>

theorem bounded_run:
  assumes "0 < maxPages c" and "0 < pagesPerSuperpage c"
  shows "(LowPriority True \<notin> set es \<and> dmaLoop ch c es (initialMembers mem) chan = Inr st \<and>
          \<not> readoutRunning st \<longrightarrow>
            mDmaLoopBreak st \<and> mReadoutCount st = finalReadoutCount c)
       \<and> (verifiable c \<and> 1 \<le> maxSuperpages c \<and> 1 \<le> slots sim \<and> superpages sim = [] \<longrightarrow>
           (\<exists>st'. dmaLoop simChannel c (rounds (nat (superpagesNeeded c) + 1))
                    (initialMembers mem') sim = Inr st' \<and>
              \<not> pushRunning st' \<and> \<not> readoutRunning st' \<and> mDmaLoopBreak st' \<and>
              mReadoutCount st' = finalReadoutCount c \<and>
              records (readoutQueue st') = [] \<and>
              mset (records (freeQueue st')) + mset (map offset (superpages (mChannel st'))) =
                mset (map (indexToOffset c) [0 ..< nat (maxSuperpages c)])))
       \<and> maxPages c \<le> finalReadoutCount c
       \<and> finalReadoutCount c < maxPages c + pagesPerSuperpage c
       \<and> finalReadoutCount c mod pagesPerSuperpage c = 0
       \<and> (finalReadoutCount c = maxPages c \<longleftrightarrow> maxPages c mod pagesPerSuperpage c = 0)"
proof -
  note B = needed_bounds [OF assms]
  have a: "LowPriority True \<notin> set es \<and> dmaLoop ch c es (initialMembers mem) chan = Inr st \<and>
          \<not> readoutRunning st \<longrightarrow>
            mDmaLoopBreak st \<and> mReadoutCount st = finalReadoutCount c"
  proof
    assume h: "LowPriority True \<notin> set es \<and>
        dmaLoop ch c es (initialMembers mem) chan = Inr st \<and> \<not> readoutRunning st"
    show "mDmaLoopBreak st \<and> mReadoutCount st = finalReadoutCount c"
      using readout_count_final [OF assms conjunct1 [OF h] conjunct1 [OF conjunct2 [OF h]]
          conjunct2 [OF conjunct2 [OF h]]] .
  qed
  have b: "verifiable c \<and> 1 \<le> maxSuperpages c \<and> 1 \<le> slots sim \<and> superpages sim = [] \<longrightarrow>
           (\<exists>st'. dmaLoop simChannel c (rounds (nat (superpagesNeeded c) + 1))
                    (initialMembers mem') sim = Inr st' \<and>
              \<not> pushRunning st' \<and> \<not> readoutRunning st' \<and> mDmaLoopBreak st' \<and>
              mReadoutCount st' = finalReadoutCount c \<and>
              records (readoutQueue st') = [] \<and>
              mset (records (freeQueue st')) + mset (map offset (superpages (mChannel st'))) =
                mset (map (indexToOffset c) [0 ..< nat (maxSuperpages c)]))"
  proof
    assume h: "verifiable c \<and> 1 \<le> maxSuperpages c \<and> 1 \<le> slots sim \<and> superpages sim = []"
    then have h1: "verifiable c" and h2: "1 \<le> maxSuperpages c" and h3: "1 \<le> slots sim"
      and h4: "superpages sim = []" by simp_all
    show "\<exists>st'. dmaLoop simChannel c (rounds (nat (superpagesNeeded c) + 1))
                    (initialMembers mem') sim = Inr st' \<and>
              \<not> pushRunning st' \<and> \<not> readoutRunning st' \<and> mDmaLoopBreak st' \<and>
              mReadoutCount st' = finalReadoutCount c \<and>
              records (readoutQueue st') = [] \<and>
              mset (records (freeQueue st')) + mset (map offset (superpages (mChannel st'))) =
                mset (map (indexToOffset c) [0 ..< nat (maxSuperpages c)])"
      using run_without_stalls [OF assms h1 h2 h3 h4] .
  qed
  have c1: "maxPages c \<le> finalReadoutCount c" using B(1) by (simp add: finalReadoutCount_def)
  have c2: "finalReadoutCount c < maxPages c + pagesPerSuperpage c"
    using B(4) by (simp add: finalReadoutCount_def)
  have c3: "finalReadoutCount c mod pagesPerSuperpage c = 0" by (simp add: finalReadoutCount_def)
  have c4: "finalReadoutCount c = maxPages c \<longleftrightarrow> maxPages c mod pagesPerSuperpage c = 0"
  proof
    assume "finalReadoutCount c = maxPages c"
    then show "maxPages c mod pagesPerSuperpage c = 0" using c3 by simp
  next
    assume "maxPages c mod pagesPerSuperpage c = 0"
    then have "maxPages c = (maxPages c + pagesPerSuperpage c - 1) div pagesPerSuperpage c
        * pagesPerSuperpage c"
      using assms(2) by (intro least_multiple) simp_all
    then show "finalReadoutCount c = maxPages c"
      by (simp add: finalReadoutCount_def superpagesNeeded_def)
  qed
  show ?thesis by (intro conjI a b c1 c2 c3 c4)
qed


theorem bounded_run_witness:
  "0 < maxPages smallConfig \<and> 0 < pagesPerSuperpage smallConfig \<and>
   verifiable smallConfig \<and> 1 \<le> maxSuperpages smallConfig \<and>
   1 \<le> slots smallCard \<and> superpages smallCard = [] \<and>
   LowPriority True \<notin> set (rounds 3 :: SimChannel event list) \<and>
   maxPages smallConfig = 3 \<and> finalReadoutCount smallConfig = 4 \<and>
   (\<exists>st. dmaLoop simChannel smallConfig (rounds 3) (initialMembers (\<lambda>a. 0)) smallCard = Inr st \<and>
      \<not> pushRunning st \<and> \<not> readoutRunning st \<and> mDmaLoopBreak st \<and>
      mReadoutCount st = 4 \<and> records (readoutQueue st) = [] \<and>
      mset (records (freeQueue st)) + mset (map offset (superpages (mChannel st))) =
        mset [0, 1048576])"
proof -
  have n: "0 < maxPages smallConfig" "maxPages smallConfig = 3" by (simp_all add: smallConfig_def)
  have p: "0 < pagesPerSuperpage smallConfig" "pagesPerSuperpage smallConfig = 2"
    by (simp_all add: pagesPerSuperpage_def toInt_def smallConfig_def)
  have v: "verifiable smallConfig" by (simp add: verifiable_def smallConfig_def)
  have m: "1 \<le> maxSuperpages smallConfig" "maxSuperpages smallConfig = 2"
    by (simp_all add: maxSuperpages_def toInt_def smallConfig_def)
  have s: "1 \<le> slots smallCard" "superpages smallCard = []" by (simp_all add: smallCard_def)
  have l: "LowPriority True \<notin> set (rounds 3 :: SimChannel event list)"
    by (simp add: numeral_3_eq_3)
  have k: "superpagesNeeded smallConfig = 2" by (simp add: superpagesNeeded_def n p)
  have f: "finalReadoutCount smallConfig = 4" by (simp add: finalReadoutCount_def k p)
  have r: "nat (superpagesNeeded smallConfig) + 1 = 3" by (simp add: k)
  have o: "map (indexToOffset smallConfig) [0 ..< nat (maxSuperpages smallConfig)] = [0, 1048576]"
    unfolding m(2) by (simp add: indexToOffset_def smallConfig_def upt_rec)
  note T = bounded_run [OF n(1) p(1), where sim = smallCard and mem' = "\<lambda>a. 0"
      and ch = simChannel and es = "rounds 3" and mem = "\<lambda>a. 0" and chan = smallCard]
  note e = T [THEN conjunct2, THEN conjunct1, THEN mp, OF conjI [OF v conjI [OF m(1) conjI [OF s]]],
      unfolded r f o]
  show ?thesis
    by (intro conjI n p(1) v m(1) s l f e)
qed

text \<open>
  C1 as stated fails. With a limit of 3 pages, superpages of 2 pages and a card that fills
  at once, the run ends after three rounds with both loops stopped and the stop flag set,
  but the readout count is 4, not 3, and of the two offsets only \<open>1048576\<close> is on the
  free queue: offset 0 was pushed again and is still held by the card.
\<close>

theorem bounded_run_counterexample:
  "maxPages smallConfig = 3 \<and>
   map_sum id (\<lambda>st. (pushRunning st, readoutRunning st, mDmaLoopBreak st, mReadoutCount st,
        records (freeQueue st), map offset (superpages (mChannel st))))
     (dmaLoop simChannel smallConfig (rounds 3) (initialMembers (\<lambda>a. 0)) smallCard)
   = Inr (False, False, True, 4, [1048576], [0])"
  by (simp add: loop_eval)

text \<open>
  C9, as amended. Along every execution, also while an exception of the readout loop is
  blocked, the readout count and the error count never decrease, and the push count never
  decreases when the number of pages per superpage is not negative. A pass of the push
  thread leaves the push count or adds \<^verbatim>\<open>pagesPerSuperpage\<close> to it; the page loop of the
  readout thread adds one per page read; each recorded error adds one.
  \<^verbatim>\<open>pagesPerSuperpage\<close> is positive when the page size is positive, at most the superpage
  size, and the quotient fits an \<^verbatim>\<open>int\<close>.
\<close>

theorem counters_monotonic:
  assumes "execution ch c es st = Inr st' \<or> execution ch c es st = Inl (Blocked err lp st')"
  shows "mReadoutCount st \<le> mReadoutCount st' \<and> mErrorCount st \<le> mErrorCount st'
       \<and> (0 \<le> pagesPerSuperpage c \<longrightarrow> mPushCount st \<le> mPushCount st')
       \<and> (mPushCount (pushIteration ch c st) = mPushCount st \<or>
          mPushCount (pushIteration ch c st) = mPushCount st + pagesPerSuperpage c)
       \<and> (\<forall>off pages i s'. readPages c off pages i st = Inr s' \<longrightarrow>
            mReadoutCount s' = mReadoutCount st + (if int i < pages then pages - int i else 0))
       \<and> (\<forall>e i g x a. mErrorCount (addError c e i g x a st) = mErrorCount st + 1 \<and>
            mErrorCount (reportErrorCru c e i g x a st) = mErrorCount st + 1)
       \<and> (0 < mPageSize c \<and> mPageSize c \<le> mSuperpageSize c \<and>
          mSuperpageSize c div mPageSize c < 2 ^ 31 \<longrightarrow> 0 < pagesPerSuperpage c)"
proof -
  have a: "mReadoutCount st \<le> mReadoutCount st' \<and> mErrorCount st \<le> mErrorCount st' \<and>
         (0 \<le> pagesPerSuperpage c \<longrightarrow> mPushCount st \<le> mPushCount st')"
    using assms
  proof
    assume "execution ch c es st = Inr st'"
    from execution_effect [OF this] show ?thesis by simp
  next
    assume "execution ch c es st = Inl (Blocked err lp st')"
    from execution_raised_effect [OF this] show ?thesis by simp
  qed
  have b: "mPushCount (pushIteration ch c st) = mPushCount st \<or>
          mPushCount (pushIteration ch c st) = mPushCount st + pagesPerSuperpage c"
    using pushIteration_frame [of ch c st] by simp
  have d: "\<forall>off pages i s'. readPages c off pages i st = Inr s' \<longrightarrow>
            mReadoutCount s' = mReadoutCount st + (if int i < pages then pages - int i else 0)"
    using readPages_effect by blast
  have e: "\<forall>e i g x a. mErrorCount (addError c e i g x a st) = mErrorCount st + 1 \<and>
            mErrorCount (reportErrorCru c e i g x a st) = mErrorCount st + 1"
    by (simp add: addError_eq reportErrorCru_eq)
  have f: "0 < mPageSize c \<and> mPageSize c \<le> mSuperpageSize c \<and>
          mSuperpageSize c div mPageSize c < 2 ^ 31 \<longrightarrow> 0 < pagesPerSuperpage c"
  proof
    assume h: "0 < mPageSize c \<and> mPageSize c \<le> mSuperpageSize c \<and>
          mSuperpageSize c div mPageSize c < 2 ^ 31"
    then have "pagesPerSuperpage c = int (mSuperpageSize c div mPageSize c)"
      by (simp add: pagesPerSuperpage_def toInt_small)
    moreover have "0 < mSuperpageSize c div mPageSize c"
      using h by (simp add: div_greater_zero_iff)
    ultimately show "0 < pagesPerSuperpage c" by simp
  qed
  show ?thesis
    by (intro conjI conjunct1 [OF a] conjunct1 [OF conjunct2 [OF a]]
        conjunct2 [OF conjunct2 [OF a]] b d e f)
qed

theorem counters_monotonic_witness:
  "0 < mPageSize smallConfig \<and> mPageSize smallConfig \<le> mSuperpageSize smallConfig \<and>
   mSuperpageSize smallConfig div mPageSize smallConfig < 2 ^ 31 \<and>
   0 < pagesPerSuperpage smallConfig \<and>
   (\<exists>st st'. dmaLoopStart smallConfig (initialMembers (\<lambda>a. 0)) smallCard = Inr st \<and>
      execution simChannel smallConfig (rounds 3) st = Inr st' \<and>
      mPushCount st = 0 \<and> mReadoutCount st = 0 \<and> mErrorCount st = 0 \<and>
      mPushCount st' = 4 \<and> mReadoutCount st' = 4 \<and> mErrorCount st' = 4 \<and>
      mPushCount st \<le> mPushCount st' \<and> mReadoutCount st \<le> mReadoutCount st' \<and>
      mErrorCount st \<le> mErrorCount st')"
proof -
  have q: "0 < mPageSize smallConfig \<and> mPageSize smallConfig \<le> mSuperpageSize smallConfig \<and>
      mSuperpageSize smallConfig div mPageSize smallConfig < 2 ^ 31"
    by (simp add: smallConfig_def)
  let ?m = "initialMembers (\<lambda>a. 0)"
  obtain st where s: "dmaLoopStart smallConfig ?m smallCard = Inr st"
    using small_start by blast
  have z: "mPushCount st = 0 \<and> mReadoutCount st = 0 \<and> mErrorCount st = 0"
    using dmaLoopStart_members [OF s] by (simp add: initialMembers_def)
  have d: "dmaLoop simChannel smallConfig (rounds 3) ?m smallCard
      = execution simChannel smallConfig (rounds 3) st"
    by (simp add: dmaLoop_def s)
  obtain st' where e: "execution simChannel smallConfig (rounds 3) st = Inr st'"
    using small_run unfolding d by (cases "execution simChannel smallConfig (rounds 3) st") auto
  have f: "mPushCount st' = 4 \<and> mReadoutCount st' = 4 \<and> mErrorCount st' = 4"
    using small_run unfolding d e by simp
  note T = counters_monotonic [OF disjI1 [OF e]]
  note m2 = T [THEN conjunct1]
  note m3 = T [THEN conjunct2, THEN conjunct1]
  note p = T [THEN conjunct2, THEN conjunct2, THEN conjunct2, THEN conjunct2, THEN conjunct2,
      THEN conjunct2, THEN mp, OF q]
  have p0: "0 \<le> pagesPerSuperpage smallConfig" using p by simp
  note m1 = T [THEN conjunct2, THEN conjunct2, THEN conjunct1, THEN mp, OF p0]
  have "dmaLoopStart smallConfig ?m smallCard = Inr st \<and>
      execution simChannel smallConfig (rounds 3) st = Inr st' \<and>
      mPushCount st = 0 \<and> mReadoutCount st = 0 \<and> mErrorCount st = 0 \<and>
      mPushCount st' = 4 \<and> mReadoutCount st' = 4 \<and> mErrorCount st' = 4 \<and>
      mPushCount st \<le> mPushCount st' \<and> mReadoutCount st \<le> mReadoutCount st' \<and>
      mErrorCount st \<le> mErrorCount st'"
    using s e z f m1 m2 m3 by simp
  then have x: "\<exists>st st'. dmaLoopStart smallConfig ?m smallCard = Inr st \<and>
      execution simChannel smallConfig (rounds 3) st = Inr st' \<and>
      mPushCount st = 0 \<and> mReadoutCount st = 0 \<and> mErrorCount st = 0 \<and>
      mPushCount st' = 4 \<and> mReadoutCount st' = 4 \<and> mErrorCount st' = 4 \<and>
      mPushCount st \<le> mPushCount st' \<and> mReadoutCount st \<le> mReadoutCount st' \<and>
      mErrorCount st \<le> mErrorCount st'"
    by - (rule exI, rule exI, assumption)
  show ?thesis
    by (intro conjI q [THEN conjunct1] q [THEN conjunct2, THEN conjunct1]
        q [THEN conjunct2, THEN conjunct2] p x)
qed


text \<open>
  C9 as stated fails. With superpages of 2048 MiB and a page of one byte, as \<^verbatim>\<open>run\<close>
  accepts them for a buffer of \<^verbatim>\<open>"4GB"\<close>, the quotient \<open>2\<^sup>3\<^sup>1\<close> narrowed to \<^verbatim>\<open>int\<close> is
  negative, and each superpage handed to the readout queue lowers the push count: it is 0
  at the start, \<open>-2147483648\<close> after one pass of the push thread and \<open>-4294967296\<close> after
  two.
\<close>

theorem counters_monotonic_counterexample:
  "runConfiguration wideConfig = Inr (2147483648, 4294967296, SIZE_1GB) \<and>
   pagesPerSuperpage wideConfig = - 2147483648 \<and>
   map_sum id mPushCount
     (dmaLoop simChannel wideConfig [] (initialMembers (\<lambda>a. 0)) smallCard) = Inr 0 \<and>
   map_sum id mPushCount
     (dmaLoop simChannel wideConfig [PushPoll] (initialMembers (\<lambda>a. 0)) smallCard)
     = Inr (- 2147483648) \<and>
   map_sum id mPushCount
     (dmaLoop simChannel wideConfig [PushPoll, PushPoll] (initialMembers (\<lambda>a. 0)) smallCard)
     = Inr (- 4294967296)"
proof -
  have a: "runConfiguration wideConfig = Inr (2147483648, 4294967296, SIZE_1GB)"
    by (simp add: runConfiguration_def parseBufferSize_def lexical_cast_def digitOf_def
        wideConfig_def)
  have b: "pagesPerSuperpage wideConfig = - 2147483648"
    by (simp add: pagesPerSuperpage_def toInt_def wideConfig_def)
  have c0: "map_sum id mPushCount
     (dmaLoop simChannel wideConfig [] (initialMembers (\<lambda>a. 0)) smallCard) = Inr 0"
    by (simp add: loop_eval wideConfig_def)
  have c1: "map_sum id mPushCount
     (dmaLoop simChannel wideConfig [PushPoll] (initialMembers (\<lambda>a. 0)) smallCard)
     = Inr (- 2147483648)"
    by (simp add: loop_eval wideConfig_def)
  have c2: "map_sum id mPushCount
     (dmaLoop simChannel wideConfig [PushPoll, PushPoll] (initialMembers (\<lambda>a. 0)) smallCard)
     = Inr (- 4294967296)"
    by (simp add: loop_eval wideConfig_def)
  show ?thesis by (intro conjI a b c0 c1 c2)
qed

text \<open>
  C10. A mismatch appends a line to the error log exactly when the run is verbose and the
  error count, once incremented for this mismatch, is below \<^verbatim>\<open>MAX_RECORDED_ERRORS\<close>
  (1000). Hence in every state that \<^verbatim>\<open>dmaLoop\<close> reaches from the initial members the log
  holds at most 999 lines, and in a run that is not verbose what \<^verbatim>\<open>outputErrors\<close> writes
  to \<^verbatim>\<open>readout_errors.txt\<close> is empty, whatever the error count.
\<close>

theorem error_log_cap:
  assumes "dmaLoop ch c es (initialMembers mem) chan = Inr st"
  shows "length (mErrorStream st) \<le> 999 \<and> (\<not> isVerbose c \<longrightarrow> outputErrors st = [])
       \<and> (\<forall>e i g x a.
            mErrorStream (addError c e i g x a st) =
              (if isVerbose c \<and> mErrorCount st + 1 < MAX_RECORDED_ERRORS
               then mErrorStream st @ [\<lparr>event = e, index = i, cnt = g, exp = x, val = a\<rparr>]
               else mErrorStream st) \<and>
            mErrorStream (reportErrorCru c e i g x a st) =
              (if isVerbose c \<and> mErrorCount st + 1 < MAX_RECORDED_ERRORS
               then mErrorStream st @ [\<lparr>event = e, index = i, cnt = g, exp = x, val = a\<rparr>]
               else mErrorStream st))"
proof -
  from assms obtain st0 where s: "dmaLoopStart c (initialMembers mem) chan = Inr st0"
    and e: "execution ch c es st0 = Inr st"
    by (auto simp: dmaLoop_def split: sum.splits)
  have "errorLogInv c st0"
    using dmaLoopStart_members [OF s] by (simp add: errorLogInv_def initialMembers_def)
  then have "errorLogInv c st" using execution_effect [OF e] by simp
  then have a: "length (mErrorStream st) \<le> 999" and b: "\<not> isVerbose c \<longrightarrow> outputErrors st = []"
    by (simp_all add: errorLogInv_def outputErrors_def)
  have d: "\<forall>e i g x a.
            mErrorStream (addError c e i g x a st) =
              (if isVerbose c \<and> mErrorCount st + 1 < MAX_RECORDED_ERRORS
               then mErrorStream st @ [\<lparr>event = e, index = i, cnt = g, exp = x, val = a\<rparr>]
               else mErrorStream st) \<and>
            mErrorStream (reportErrorCru c e i g x a st) =
              (if isVerbose c \<and> mErrorCount st + 1 < MAX_RECORDED_ERRORS
               then mErrorStream st @ [\<lparr>event = e, index = i, cnt = g, exp = x, val = a\<rparr>]
               else mErrorStream st)"
    by (simp add: addError_eq reportErrorCru_eq MAX_RECORDED_ERRORS_def)
  show ?thesis by (intro conjI a b d)
qed


theorem error_log_cap_witness:
  "\<not> isVerbose smallConfig \<and>
   (\<exists>st. dmaLoop simChannel smallConfig (rounds 3) (initialMembers (\<lambda>a. 0)) smallCard = Inr st \<and>
      mErrorCount st = 4 \<and> length (mErrorStream st) \<le> 999 \<and> outputErrors st = [])"
proof -
  have v: "\<not> isVerbose smallConfig" by (simp add: smallConfig_def)
  let ?r = "dmaLoop simChannel smallConfig (rounds 3) (initialMembers (\<lambda>a. 0)) smallCard"
  obtain st where e: "?r = Inr st"
    using small_run by (cases ?r) auto
  have f: "mErrorCount st = 4" using small_run unfolding e by simp
  note T = error_log_cap [OF e]
  note a = T [THEN conjunct1]
  note b = T [THEN conjunct2, THEN conjunct1, THEN mp, OF v]
  have "?r = Inr st \<and> mErrorCount st = 4 \<and> length (mErrorStream st) \<le> 999 \<and>
      outputErrors st = []"
    using e f a b by simp
  then have "\<exists>st. ?r = Inr st \<and> mErrorCount st = 4 \<and> length (mErrorStream st) \<le> 999 \<and>
      outputErrors st = []"
    by - (rule exI, assumption)
  with v show ?thesis by (rule conjI)
qed


text \<open>
  C5. In a pass of the push thread that is not stopped, let \<open>mid\<close> be the state after the
  card's queue was topped up and the free superpages were pushed. If the card then reports
  a superpage and the head superpage is filled: when the readout queue has room, the
  offset is appended to it, the push count grows by \<^verbatim>\<open>pagesPerSuperpage\<close> and the head
  is popped from the card; when the readout queue is full, the write fails and the pass
  ends in \<open>mid\<close>: the card's state is untouched and the superpage stays at its head.
\<close>

theorem filled_superpage_handoff:
  assumes "pushRunning st" and "\<not> mDmaLoopBreak st"
    and "\<not> (\<not> mInfinitePages c \<and> maxPages c \<le> mPushCount st)"
  shows "let mid = pushFreeSuperpages ch c (st\<lparr>mChannel := fillSuperpages ch (mChannel st)\<rparr>);
             superpage = getSuperpage ch (mChannel mid);
             rq = readoutQueue mid
         in 0 < getSuperpageQueueCount ch (mChannel mid) \<and> isFilled superpage \<longrightarrow>
            (length (records rq) + 1 < qsize rq \<longrightarrow>
               pushIteration ch c st =
                 mid\<lparr>readoutQueue := rq\<lparr>records := records rq @ [getOffset superpage]\<rparr>,
                     mPushCount := mPushCount mid + pagesPerSuperpage c,
                     mChannel := popSuperpage ch (mChannel mid)\<rparr>) \<and>
            (\<not> length (records rq) + 1 < qsize rq \<longrightarrow>
               queueWrite rq (getOffset superpage) = None \<and> pushIteration ch c st = mid)"
proof -
  let ?mid = "pushFreeSuperpages ch c (st\<lparr>mChannel := fillSuperpages ch (mChannel st)\<rparr>)"
  have "pushIteration ch c st = checkFilledSuperpages ch c ?mid"
    using assms by (auto simp: pushIteration_def)
  then show ?thesis
    by (auto simp: Let_def checkFilledSuperpages_def queueWrite_def)
qed


theorem filled_superpage_handoff_witness:
  "pushRunning smallStart \<and> \<not> mDmaLoopBreak smallStart \<and>
   \<not> (\<not> mInfinitePages smallConfig \<and> maxPages smallConfig \<le> mPushCount smallStart) \<and>
   pushIteration simChannel smallConfig smallStart =
     smallStart\<lparr>freeQueue := \<lparr>qsize = 3, records = []\<rparr>,
                readoutQueue := \<lparr>qsize = 3, records = [0]\<rparr>,
                mPushCount := 2,
                mChannel := \<lparr>slots = 2,
                   superpages = [\<lparr>offset = 1048576, spSize = 1048576, received = 1048576\<rparr>]\<rparr>\<rparr> \<and>
   pushRunning handoffBlocked \<and> \<not> mDmaLoopBreak handoffBlocked \<and>
   \<not> (\<not> mInfinitePages smallConfig \<and> maxPages smallConfig \<le> mPushCount handoffBlocked) \<and>
   pushIteration simChannel smallConfig handoffBlocked = handoffBlocked"
proof -
  have a: "pushRunning smallStart" "\<not> mDmaLoopBreak smallStart"
    "\<not> (\<not> mInfinitePages smallConfig \<and> maxPages smallConfig \<le> mPushCount smallStart)"
    by (simp_all add: smallStart_def smallConfig_def mInfinitePages_def)
  have b: "pushRunning handoffBlocked" "\<not> mDmaLoopBreak handoffBlocked"
    "\<not> (\<not> mInfinitePages smallConfig \<and> maxPages smallConfig \<le> mPushCount handoffBlocked)"
    by (simp_all add: handoffBlocked_def smallStart_def smallConfig_def mInfinitePages_def)
  have m1: "pushFreeSuperpages simChannel smallConfig
       (smallStart\<lparr>mChannel := fillSuperpages simChannel (mChannel smallStart)\<rparr>) =
     smallStart\<lparr>freeQueue := \<lparr>qsize = 3, records = []\<rparr>,
                mChannel := \<lparr>slots = 2,
                   superpages = [\<lparr>offset = 0, spSize = 1048576, received = 1048576\<rparr>,
                                 \<lparr>offset = 1048576, spSize = 1048576, received = 1048576\<rparr>]\<rparr>\<rparr>"
    by (simp add: smallStart_def smallConfig_def smallCard_def simChannel_def queueRead_def
        pushFreeSuperpages.simps)
  have m2: "pushFreeSuperpages simChannel smallConfig
       (handoffBlocked\<lparr>mChannel := fillSuperpages simChannel (mChannel handoffBlocked)\<rparr>) =
     handoffBlocked"
    by (simp add: handoffBlocked_def smallStart_def smallConfig_def smallCard_def simChannel_def
        queueRead_def pushFreeSuperpages.simps)
  have p: "pagesPerSuperpage smallConfig = 2"
    by (simp add: pagesPerSuperpage_def toInt_def smallConfig_def)
  have r1: "pushIteration simChannel smallConfig smallStart =
     smallStart\<lparr>freeQueue := \<lparr>qsize = 3, records = []\<rparr>,
                readoutQueue := \<lparr>qsize = 3, records = [0]\<rparr>,
                mPushCount := 2,
                mChannel := \<lparr>slots = 2,
                   superpages = [\<lparr>offset = 1048576, spSize = 1048576, received = 1048576\<rparr>]\<rparr>\<rparr>"
    using filled_superpage_handoff [OF a, of simChannel, unfolded Let_def m1]
    by (simp add: p smallStart_def simChannel_def isFilled_def getOffset_def)
  have r2: "pushIteration simChannel smallConfig handoffBlocked = handoffBlocked"
    using filled_superpage_handoff [OF b, of simChannel, unfolded Let_def m2]
    by (simp add: handoffBlocked_def smallStart_def simChannel_def isFilled_def getOffset_def)
  show ?thesis using a b r1 r2 by simp
qed


text \<open>
  C6. In a pass of the readout thread that is not stopped and finds an offset on the
  readout queue, once the pages of the superpage have been read: if the free queue is
  full, the write of the offset fails and the pass raises the exception "Something went
  horribly wrong", so the offset is not dropped silently. The run does not abort, though.
  The exception stays blocked, the push loop going on beside it, for as long as no
  interrupt arrives, whatever the other events are; it leaves \<^verbatim>\<open>dmaLoop\<close> once an
  interrupt has been seen by the low-priority loop and the stop flag by both loops.
\<close>

theorem free_queue_write_failure_blocks:
  assumes "readoutRunning st" and "\<not> mDmaLoopBreak st"
    and "\<not> (\<not> mInfinitePages c \<and> maxPages c \<le> mReadoutCount st)"
    and "queueRead (readoutQueue st) = Some (off, q)"
    and "readPages c off (pagesPerSuperpage c) 0 (st\<lparr>readoutQueue := q\<rparr>) = Inr st1"
    and "\<not> length (records (freeQueue st)) + 1 < qsize (freeQueue st)"
  shows "queueWrite (freeQueue st1) off = None \<and>
         readoutIteration c st = Inl (Exception ''Something went horribly wrong'' None, st1) \<and>
         execution ch c [Readout, PushPoll] st =
           Inl (Blocked (Exception ''Something went horribly wrong'' None) True
                  (pushIteration ch c (st1\<lparr>readoutRunning := False\<rparr>))) \<and>
         (LowPriority True \<notin> set es \<longrightarrow>
            (\<exists>s. execution ch c (Readout # es) st =
                   Inl (Blocked (Exception ''Something went horribly wrong'' None) True s) \<and>
                 \<not> mDmaLoopBreak s) \<and>
            execution ch c (Readout # es @ [LowPriority True, LowPriority b, PushPoll]) st =
              Inl (Propagated (Exception ''Something went horribly wrong'' None)))"
proof -
  let ?err = "Exception ''Something went horribly wrong'' None"
  let ?s0 = "st1\<lparr>readoutRunning := False\<rparr>"
  note p = readPages_effect [OF assms(5)]
  have "Members.more st1 = Members.more (st\<lparr>readoutQueue := q\<rparr>)" using p by simp
  then have "freeQueue st1 = freeQueue st"
    using more_fields(2) [of st1 "st\<lparr>readoutQueue := q\<rparr>"] by simp
  then have w: "queueWrite (freeQueue st1) off = None"
    using assms(6) by (simp add: queueWrite_def)
  have r: "readoutIteration c st = Inl (?err, st1)"
    using assms w by (auto simp: readoutIteration_def)
  have b0: "\<not> mDmaLoopBreak ?s0" using p assms(2) by simp
  have x: "execution ch c (Readout # fs) st = Inl (unwinding ch c fs (Blocked ?err True ?s0))" for fs
    using r by (simp add: joined_def)
  have e1: "execution ch c [Readout, PushPoll] st =
      Inl (Blocked ?err True (pushIteration ch c ?s0))"
    unfolding x by (simp add: joined_def)
  have e2: "LowPriority True \<notin> set es \<longrightarrow>
            (\<exists>s. execution ch c (Readout # es) st = Inl (Blocked ?err True s) \<and>
                 \<not> mDmaLoopBreak s) \<and>
            execution ch c (Readout # es @ [LowPriority True, LowPriority b, PushPoll]) st =
              Inl (Propagated ?err)"
  proof
    assume n: "LowPriority True \<notin> set es"
    from unwinding_waits [OF b0 n] obtain s where
      u: "unwinding ch c es (Blocked ?err True ?s0) = Blocked ?err True s"
      and bs: "\<not> mDmaLoopBreak s" by blast
    have a: "\<exists>s. execution ch c (Readout # es) st = Inl (Blocked ?err True s) \<and> \<not> mDmaLoopBreak s"
      unfolding x using u bs by simp
    have "unwinding ch c (es @ [LowPriority True, LowPriority b, PushPoll]) (Blocked ?err True ?s0)
        = Propagated ?err"
      unfolding unwinding_append u by (rule interrupt_propagates [OF bs])
    then have "execution ch c (Readout # es @ [LowPriority True, LowPriority b, PushPoll]) st =
        Inl (Propagated ?err)"
      unfolding x by simp
    with a show "(\<exists>s. execution ch c (Readout # es) st = Inl (Blocked ?err True s) \<and>
                 \<not> mDmaLoopBreak s) \<and>
            execution ch c (Readout # es @ [LowPriority True, LowPriority b, PushPoll]) st =
              Inl (Propagated ?err)" by (rule conjI)
  qed
  show ?thesis by (intro conjI w r e1 e2)
qed

text \<open>
  The small run on a card that starts with a filled superpage for offset 0 in its single
  slot. The first pass of the push thread hands offset 0 to the readout queue while the
  free queue still holds both offsets of the buffer; the readout pass raises; three rounds
  later the push loop has stopped at the page limit, and the exception is still blocked.
\<close>

theorem free_queue_write_failure_blocks_witness:
  "dmaLoop simChannel smallConfig [PushPoll] (initialMembers (\<lambda>a. 0)) staleCard = Inr returnBlocked \<and>
   readoutRunning returnBlocked \<and> \<not> mDmaLoopBreak returnBlocked \<and>
   \<not> (\<not> mInfinitePages smallConfig \<and> maxPages smallConfig \<le> mReadoutCount returnBlocked) \<and>
   queueRead (readoutQueue returnBlocked) = Some (0, \<lparr>qsize = 3, records = []\<rparr>) \<and>
   \<not> length (records (freeQueue returnBlocked)) + 1 < qsize (freeQueue returnBlocked) \<and>
   map_sum fst id (readoutIteration smallConfig returnBlocked) =
     Inl (Exception ''Something went horribly wrong'' None) \<and>
   (\<exists>s. execution simChannel smallConfig (Readout # rounds 3) returnBlocked =
          Inl (Blocked (Exception ''Something went horribly wrong'' None) True s) \<and>
        \<not> pushRunning s \<and> \<not> mDmaLoopBreak s \<and> mPushCount s = 4 \<and> mReadoutCount s = 2) \<and>
   execution simChannel smallConfig
       (Readout # rounds 3 @ [LowPriority True, LowPriority False, PushPoll]) returnBlocked =
     Inl (Propagated (Exception ''Something went horribly wrong'' None))"
proof -
  let ?err = "Exception ''Something went horribly wrong'' None"
  have a: "readoutRunning returnBlocked" "\<not> mDmaLoopBreak returnBlocked"
    "\<not> (\<not> mInfinitePages smallConfig \<and> maxPages smallConfig \<le> mReadoutCount returnBlocked)"
    by (simp_all add: returnBlocked_def smallStart_def smallConfig_def mInfinitePages_def)
  have q: "queueRead (readoutQueue returnBlocked) = Some (0, \<lparr>qsize = 3, records = []\<rparr>)"
    by (simp add: returnBlocked_def smallStart_def queueRead_def)
  have f: "\<not> length (records (freeQueue returnBlocked)) + 1 < qsize (freeQueue returnBlocked)"
    by (simp add: returnBlocked_def smallStart_def)
  let ?r = "readPages smallConfig 0 (pagesPerSuperpage smallConfig) 0
      (returnBlocked\<lparr>readoutQueue := \<lparr>qsize = 3, records = []\<rparr>\<rparr>)"
  have "map_sum fst mReadoutCount ?r = Inr 2"
    by (simp add: returnBlocked_def smallStart_def loop_eval)
  then obtain st1 where r: "?r = Inr st1" by (cases ?r) auto
  have n: "LowPriority True \<notin> set (rounds 3 :: SimChannel event list)"
    by (simp add: numeral_3_eq_3)
  note T = free_queue_write_failure_blocks [OF a q r f, where ch = simChannel and es = "rounds 3"
      and b = False]
  note t2 = T [THEN conjunct2, THEN conjunct1]
  note t4 = T [THEN conjunct2, THEN conjunct2, THEN conjunct2, THEN mp, OF n]
  have i: "map_sum fst id (readoutIteration smallConfig returnBlocked) = Inl ?err"
    unfolding t2 by simp
  from t4 [THEN conjunct1] obtain s where
    e: "execution simChannel smallConfig (Readout # rounds 3) returnBlocked = Inl (Blocked ?err True s)"
    and b: "\<not> mDmaLoopBreak s" by blast
  have o: "\<not> pushRunning s \<and> mPushCount s = 4 \<and> mReadoutCount s = 2"
    using stale_run unfolding e by simp
  have x: "\<exists>s. execution simChannel smallConfig (Readout # rounds 3) returnBlocked =
          Inl (Blocked ?err True s) \<and>
        \<not> pushRunning s \<and> \<not> mDmaLoopBreak s \<and> mPushCount s = 4 \<and> mReadoutCount s = 2"
    using e b o by - (rule exI [of _ s], simp)
  show ?thesis
    by (intro conjI stale_pushed a q f i x t4 [THEN conjunct2])
qed

section \<open>Claims on the configuration\<close>

lemmas parse_eval = parseBufferSize_def lexical_cast_def digitOf_def

text \<open>
  C7. \<^verbatim>\<open>"10MB"\<close> gives a buffer of 10 MiB on 2 MiB hugepages and \<^verbatim>\<open>"1GB"\<close> a buffer
  of 1 GiB on 1 GiB hugepages. \<^verbatim>\<open>"abc"\<close>, any input of three or more characters whose
  part before the last two is not a number, a numeric input whose last two characters are
  neither \<^verbatim>\<open>MB\<close> nor \<^verbatim>\<open>GB\<close>, an input shorter than three characters, and a buffer size
  below the superpage size are all refused with an exception. A refused configuration
  makes no call on the card and gives a non-zero exit status.
\<close>

theorem buffer_size_parsing:
  "parseBufferSize ''10MB'' = Inr (10 * 1024 * 1024, SIZE_2MB)
   \<and> parseBufferSize ''1GB'' = Inr (1024 * 1024 * 1024, SIZE_1GB)
   \<and> parseBufferSize ''abc'' = Inl (ParameterException ''Invalid buffer size argument'')
   \<and> (3 \<le> length input \<and> lexical_cast (take (length input - 2) input) = None \<longrightarrow>
        parseBufferSize input = Inl (ParameterException ''Invalid buffer size argument''))
   \<and> (3 \<le> length input \<and> lexical_cast (take (length input - 2) input) \<noteq> None \<and>
        drop (length input - 2) input \<noteq> ''MB'' \<and> drop (length input - 2) input \<noteq> ''GB'' \<longrightarrow>
        parseBufferSize input = Inl (ParameterException ''Invalid buffer size unit given''))
   \<and> (length input < 3 \<longrightarrow>
        parseBufferSize input = Inl (Exception ''Invalid buffer size given'' None))
   \<and> (\<not> (fileOutputAscii opts \<and> fileOutputBin opts) \<and>
        parseBufferSize (bufferSizeString opts) = Inr (bufferSize, hugePageSize) \<and>
        bufferSize < (superpageSizeMiB opts * 1024 * 1024) mod 2 ^ 64 \<longrightarrow>
        runConfiguration opts =
          Inl (ParameterException ''Buffer size smaller than superpage size''))
   \<and> (\<not> (fileOutputAscii opts \<and> fileOutputBin opts) \<and>
        parseBufferSize (bufferSizeString opts) = Inl e \<longrightarrow>
        runConfiguration opts = Inl e)
   \<and> (runConfiguration opts = Inl e \<longrightarrow>
        runStartup opts = ([], Inl e) \<and> execute (snd (runStartup opts)) \<noteq> 0)"
proof -
  have a: "parseBufferSize ''10MB'' = Inr (10 * 1024 * 1024, SIZE_2MB)"
    by (simp add: parse_eval)
  have b: "parseBufferSize ''1GB'' = Inr (1024 * 1024 * 1024, SIZE_1GB)"
    by (simp add: parse_eval)
  have c: "parseBufferSize ''abc'' = Inl (ParameterException ''Invalid buffer size argument'')"
    by (simp add: parse_eval)
  have d: "3 \<le> length input \<and> lexical_cast (take (length input - 2) input) = None \<longrightarrow>
        parseBufferSize input = Inl (ParameterException ''Invalid buffer size argument'')"
    by (simp add: parseBufferSize_def)
  have e: "3 \<le> length input \<and> lexical_cast (take (length input - 2) input) \<noteq> None \<and>
        drop (length input - 2) input \<noteq> ''MB'' \<and> drop (length input - 2) input \<noteq> ''GB'' \<longrightarrow>
        parseBufferSize input = Inl (ParameterException ''Invalid buffer size unit given'')"
    by (auto simp: parseBufferSize_def)
  have f: "length input < 3 \<longrightarrow>
        parseBufferSize input = Inl (Exception ''Invalid buffer size given'' None)"
    by (simp add: parseBufferSize_def)
  have g: "\<not> (fileOutputAscii opts \<and> fileOutputBin opts) \<and>
        parseBufferSize (bufferSizeString opts) = Inr (bufferSize, hugePageSize) \<and>
        bufferSize < (superpageSizeMiB opts * 1024 * 1024) mod 2 ^ 64 \<longrightarrow>
        runConfiguration opts =
          Inl (ParameterException ''Buffer size smaller than superpage size'')"
    by (auto simp: runConfiguration_def)
  have h: "\<not> (fileOutputAscii opts \<and> fileOutputBin opts) \<and>
        parseBufferSize (bufferSizeString opts) = Inl e \<longrightarrow>
        runConfiguration opts = Inl e"
    by (auto simp: runConfiguration_def)
  have i: "runConfiguration opts = Inl e \<longrightarrow>
        runStartup opts = ([], Inl e) \<and> execute (snd (runStartup opts)) \<noteq> 0"
    by (simp add: runStartup_def execute_def)
  show ?thesis by (intro conjI a b c d e f g h i)
qed

theorem buffer_size_parsing_witness:
  "runConfiguration exampleOptions = Inr (1048576, 10485760, SIZE_2MB)
   \<and> runStartup exampleOptions = ([GetMaster, StartDma], Inr (1048576, 10485760, SIZE_2MB))
   \<and> runConfiguration (exampleOptions\<lparr>bufferSizeString := ''1GB''\<rparr>)
       = Inr (1048576, 1073741824, SIZE_1GB)
   \<and> parseBufferSize ''abc'' = Inl (ParameterException ''Invalid buffer size argument'')
   \<and> runStartup (exampleOptions\<lparr>bufferSizeString := ''abc''\<rparr>)
       = ([], Inl (ParameterException ''Invalid buffer size argument''))
   \<and> execute (snd (runStartup (exampleOptions\<lparr>bufferSizeString := ''abc''\<rparr>))) \<noteq> 0
   \<and> runStartup (exampleOptions\<lparr>bufferSizeString := ''10KB''\<rparr>)
       = ([], Inl (ParameterException ''Invalid buffer size unit given''))
   \<and> runStartup (exampleOptions\<lparr>bufferSizeString := ''2MB'', superpageSizeMiB := 4\<rparr>)
       = ([], Inl (ParameterException ''Buffer size smaller than superpage size''))"
proof -
  note T = buffer_size_parsing
  have p10: "parseBufferSize ''10MB'' = Inr (10485760, SIZE_2MB)"
    using T [THEN conjunct1] by simp
  have p1: "parseBufferSize ''1GB'' = Inr (1073741824, SIZE_1GB)"
    using T [THEN conjunct2, THEN conjunct1] by simp
  have pabc: "parseBufferSize ''abc'' = Inl (ParameterException ''Invalid buffer size argument'')"
    using T [THEN conjunct2, THEN conjunct2, THEN conjunct1] .
  have pkb: "parseBufferSize ''10KB'' = Inl (ParameterException ''Invalid buffer size unit given'')"
    using T [where input = "''10KB''", THEN conjunct2, THEN conjunct2, THEN conjunct2,
        THEN conjunct2, THEN conjunct1]
    by (simp add: lexical_cast_def digitOf_def)
  have p2: "parseBufferSize ''2MB'' = Inr (2097152, SIZE_2MB)" by (simp add: parse_eval)
  have r1: "runConfiguration exampleOptions = Inr (1048576, 10485760, SIZE_2MB)"
    by (simp add: runConfiguration_def exampleOptions_def p10)
  have r2: "runConfiguration (exampleOptions\<lparr>bufferSizeString := ''1GB''\<rparr>)
       = Inr (1048576, 1073741824, SIZE_1GB)"
    by (simp add: runConfiguration_def exampleOptions_def p1)
  have s1: "runStartup exampleOptions = ([GetMaster, StartDma], Inr (1048576, 10485760, SIZE_2MB))"
    by (simp add: runStartup_def r1) (simp add: exampleOptions_def)
  let ?oa = "exampleOptions\<lparr>bufferSizeString := ''abc''\<rparr>"
  let ?ok = "exampleOptions\<lparr>bufferSizeString := ''10KB''\<rparr>"
  let ?os = "exampleOptions\<lparr>bufferSizeString := ''2MB'', superpageSizeMiB := 4\<rparr>"
  have fa: "\<not> (fileOutputAscii ?oa \<and> fileOutputBin ?oa)"
    and fk: "\<not> (fileOutputAscii ?ok \<and> fileOutputBin ?ok)"
    and fs: "\<not> (fileOutputAscii ?os \<and> fileOutputBin ?os)"
    by (simp_all add: exampleOptions_def)
  note Ha = T [where opts = ?oa and e = "ParameterException ''Invalid buffer size argument''"]
  note Hk = T [where opts = ?ok and e = "ParameterException ''Invalid buffer size unit given''"]
  note Hs = T [where opts = ?os and bufferSize = 2097152 and hugePageSize = SIZE_2MB
      and e = "ParameterException ''Buffer size smaller than superpage size''"]
  have ca: "runConfiguration ?oa = Inl (ParameterException ''Invalid buffer size argument'')"
    using Ha [THEN conjunct2, THEN conjunct2, THEN conjunct2, THEN conjunct2, THEN conjunct2,
        THEN conjunct2, THEN conjunct2, THEN conjunct1] fa pabc by simp
  have ck: "runConfiguration ?ok = Inl (ParameterException ''Invalid buffer size unit given'')"
    using Hk [THEN conjunct2, THEN conjunct2, THEN conjunct2, THEN conjunct2, THEN conjunct2,
        THEN conjunct2, THEN conjunct2, THEN conjunct1] fk pkb by simp
  have cs: "runConfiguration ?os =
      Inl (ParameterException ''Buffer size smaller than superpage size'')"
    using Hs [THEN conjunct2, THEN conjunct2, THEN conjunct2, THEN conjunct2, THEN conjunct2,
        THEN conjunct2, THEN conjunct1] fs p2 by simp
  note Sa = Ha [THEN conjunct2, THEN conjunct2, THEN conjunct2, THEN conjunct2, THEN conjunct2,
        THEN conjunct2, THEN conjunct2, THEN conjunct2, THEN mp, OF ca]
  note Sk = Hk [THEN conjunct2, THEN conjunct2, THEN conjunct2, THEN conjunct2, THEN conjunct2,
        THEN conjunct2, THEN conjunct2, THEN conjunct2, THEN mp, OF ck]
  note Ss = Hs [THEN conjunct2, THEN conjunct2, THEN conjunct2, THEN conjunct2, THEN conjunct2,
        THEN conjunct2, THEN conjunct2, THEN conjunct2, THEN mp, OF cs]
  show ?thesis
    by (intro conjI r1 s1 r2 pabc Sa [THEN conjunct1] Sa [THEN conjunct2]
        Sk [THEN conjunct1] Ss [THEN conjunct1])
qed

end
